theory Spec2Isabelle
  imports Complex_Main
begin

section \<open>Download and consolidation pipeline of descarga.py\<close>

text \<open>
  A shallow embedding of the download orchestration and consolidation code of
  \<^verbatim>\<open>src/descarga.py\<close>. Everything the Python does beyond returning a value is
  written into a trace of events: file-system operations, network requests, sleeps and
  the three callbacks. What the outside world decides (the server's answers, the state
  of a lock file shared with other processes, the random draws, whether pandas can read
  a file) is an explicit environment argument.

  Python floats (progress values, sleep times) are modelled as rationals. The callbacks
  are taken to return normally. Other processes appear only through the environment:
  between the events of one fetch nothing else changes the files, and
  \<^verbatim>\<open>os.replace\<close> either renames or fails.
\<close>

subsection \<open>Strings and paths\<close>

text \<open>\<^verbatim>\<open>s.startswith(p)\<close>\<close>

fun startswith :: "string \<Rightarrow> string \<Rightarrow> bool" where
  "startswith s [] = True"
| "startswith [] (p # ps) = False"
| "startswith (c # s) (p # ps) = (c = p \<and> startswith s ps)"

text \<open>\<^verbatim>\<open>p in s\<close> for strings: \<open>p\<close> occurs in \<open>s\<close> as a contiguous substring.\<close>

fun str_in :: "string \<Rightarrow> string \<Rightarrow> bool" where
  "str_in p [] = (p = [])"
| "str_in p (c # s) = (startswith (c # s) p \<or> str_in p s)"

text \<open>Decimal rendering of a non-negative integer, as an f-string does.\<close>

definition digit_char :: "nat \<Rightarrow> char" where
  "digit_char d = ''0123456789'' ! d"

function show_nat :: "nat \<Rightarrow> string" where
  "show_nat n = (if n < 10 then [digit_char n] else show_nat (n div 10) @ [digit_char (n mod 10)])"
  by pat_completeness auto
termination
  by (relation "measure (\<lambda>n. n)") auto

declare show_nat.simps [simp del]

text \<open>
  The code runs on Windows (it imports \<^verbatim>\<open>msvcrt\<close>), so \<^verbatim>\<open>os.path\<close> is
  \<^verbatim>\<open>ntpath\<close>: both slashes separate components, and \<^verbatim>\<open>os.path.join\<close> inserts a
  backslash. Drive letters and UNC prefixes are not modelled: the paths of this program
  are a folder joined with a plain file name.
\<close>

definition backslash :: char where
  "backslash = CHR 0x5C"

definition is_sep :: "char \<Rightarrow> bool" where
  "is_sep c = (c = CHR ''/'' \<or> c = backslash)"

definition path_join :: "string \<Rightarrow> string \<Rightarrow> string" where
  "path_join d n =
     (if d = [] then n
      else if is_sep (last d) then d @ n
      else d @ [backslash] @ n)"

definition basename :: "string \<Rightarrow> string" where
  "basename p = rev (takeWhile (\<lambda>c. \<not> is_sep c) (rev p))"

definition dirname :: "string \<Rightarrow> string" where
  "dirname p = rev (drop 1 (dropWhile (\<lambda>c. \<not> is_sep c) (rev p)))"

subsection \<open>Rows, messages and events\<close>

text \<open>
  A row of a partition file read with \<^verbatim>\<open>dtype=str\<close>: its canonical identifier and
  its other cells. A consolidated row has the provenance column added.
\<close>

record row =
  NumeroTramite :: string
  cells :: "string list"

record out_row = row +
  ARCHIVO_ORIGEN :: string

text \<open>
  The texts handed to the callbacks, by call site; each carries the values its f-string
  interpolates.
\<close>

datatype msg =
    MsgSkipExisting string
  | MsgAttempt nat nat string
  | MsgLockCleaned string
  | MsgLockedByOther string
  | MsgDownloaded string
  | MsgInUse
  | MsgException string
  | MsgConnError nat string
  | MsgServerWait rat
  | MsgUnexpected string
  | MsgFailedAfter nat string
  | MsgNoModules
  | MsgSelected "string list"
  | MsgStartConsolidation
  | MsgConsolidating string
  | MsgConsolidationError string
  | MsgConsolidationDone
  | MsgConsolidationErrors
  | MsgStartDownload
  | MsgProcessingType nat
  | MsgDownloadingMissing nat
  | MsgNothingMissing
  | MsgDownloadingAll
  | MsgDownloadDone
  | MsgAllDone
  | MsgDoneWithErrors
  | MsgNoNewFiles string
  | MsgFileRead string
  | MsgRecordsLM string nat nat
  | MsgProcessError string
  | MsgNoneProcessed
  | MsgSaved string
  | MsgTotalRecords nat
  | MsgSaveError string

datatype sleep_site = Backoff | RenameWait | Throttle

datatype event =
    Log msg
  | Err string msg
  | Progress rat
  | Sleep sleep_site rat
  | Request string
  | SessionClose
  | LockAcquire string
  | LockRelease string
  | OpenTrunc string
  | Write string string
  | Remove string
  | Replace string string
  | Makedirs string
  | WriteCsv string "out_row list"

text \<open>
  The three optional callbacks of every entry point: each flag says whether the caller
  passed one (\<^verbatim>\<open>if log_callback: log_callback(...)\<close>).
\<close>

record callbacks =
  log_callback :: bool
  error_callback :: bool
  progress_callback :: bool

definition log :: "callbacks \<Rightarrow> msg \<Rightarrow> event list" where
  "log cb m = (if log_callback cb then [Log m] else [])"

definition err :: "callbacks \<Rightarrow> string \<Rightarrow> msg \<Rightarrow> event list" where
  "err cb ctx m = (if error_callback cb then [Err ctx m] else [])"

definition progress :: "callbacks \<Rightarrow> rat \<Rightarrow> event list" where
  "progress cb p = (if progress_callback cb then [Progress p] else [])"

subsection \<open>The consolidator\<close>

text \<open>
  What the body of the \<^verbatim>\<open>try\<close> block does with one source file:
  \<^verbatim>\<open>pd.read_csv\<close> raises (\<open>ReadError\<close>), or it returns a frame and the filter
  on \<^verbatim>\<open>df['NumeroTramite']\<close> raises, for instance because the column is missing
  (\<open>FilterError\<close>), or the frame's data rows are read (\<open>Frame\<close>).
\<close>

datatype parse_result = ReadError string | FilterError string | Frame "row list"

text \<open>How \<^verbatim>\<open>os.makedirs\<close> and \<^verbatim>\<open>to_csv\<close> end.\<close>

datatype write_result = WriteOk | MakedirsError string | ToCsvError string

definition keep_LM :: "row list \<Rightarrow> row list" where
  "keep_LM rows = filter (\<lambda>r. startswith (NumeroTramite r) ''LM'') rows"

definition tag_origin :: "string \<Rightarrow> row \<Rightarrow> out_row" where
  "tag_origin name r =
     \<lparr>NumeroTramite = NumeroTramite r, cells = cells r, ARCHIVO_ORIGEN = name\<rparr>"

text \<open>
  The \<^verbatim>\<open>for index, archivo in enumerate(downloaded_files)\<close> loop. The accumulator
  is the list \<^verbatim>\<open>dataframes\<close> and the trace so far.
\<close>

fun consolidar_loop ::
  "callbacks \<Rightarrow> (string \<Rightarrow> parse_result) \<Rightarrow> rat \<Rightarrow> rat \<Rightarrow> nat \<Rightarrow> nat \<Rightarrow> string list \<Rightarrow>
   out_row list list \<times> event list \<Rightarrow> out_row list list \<times> event list" where
  "consolidar_loop cb rd base_progress progress_weight total_files index [] acc = acc"
| "consolidar_loop cb rd base_progress progress_weight total_files index (archivo # rest) (dataframes, tr) =
     consolidar_loop cb rd base_progress progress_weight total_files (Suc index) rest
       (case rd archivo of
          ReadError e \<Rightarrow> (dataframes, tr @ err cb archivo (MsgProcessError e))
        | FilterError e \<Rightarrow>
            (dataframes,
             tr @ log cb (MsgFileRead (basename archivo)) @ err cb archivo (MsgProcessError e))
        | Frame rows \<Rightarrow>
            (dataframes @ [map (tag_origin (basename archivo)) (keep_LM rows)],
             tr @ log cb (MsgFileRead (basename archivo))
                @ log cb (MsgRecordsLM (basename archivo) (length (keep_LM rows)) (length rows))
                @ progress cb
                    (base_progress + of_nat (index + 1) / of_nat total_files * progress_weight)))"

text \<open>
  \<^verbatim>\<open>consolidar_archivos_descargados\<close>. It returns nothing; its effect is the trace.
  A failed \<^verbatim>\<open>to_csv\<close> may leave a partial file behind, which the trace does not
  show.
\<close>

definition consolidar_archivos_descargados ::
  "callbacks \<Rightarrow> (string \<Rightarrow> parse_result) \<Rightarrow> write_result \<Rightarrow>
   string \<Rightarrow> string \<Rightarrow> string list \<Rightarrow> rat \<Rightarrow> rat \<Rightarrow> event list" where
  "consolidar_archivos_descargados cb rd wr folder output_file downloaded_files
      base_progress progress_weight =
     (if downloaded_files = [] then log cb (MsgNoNewFiles folder)
      else
        (case consolidar_loop cb rd base_progress progress_weight (length downloaded_files) 0
                downloaded_files ([], []) of
           (dataframes, tr) \<Rightarrow>
             if dataframes = [] then tr @ log cb MsgNoneProcessed
             else
               (case wr of
                  MakedirsError e \<Rightarrow> tr @ err cb output_file (MsgSaveError e)
                | ToCsvError e \<Rightarrow>
                    tr @ [Makedirs (dirname output_file)] @ err cb output_file (MsgSaveError e)
                | WriteOk \<Rightarrow>
                    tr @ [Makedirs (dirname output_file), WriteCsv output_file (concat dataframes)]
                       @ log cb (MsgSaved output_file)
                       @ log cb (MsgTotalRecords (length (concat dataframes))))))"

subsection \<open>The file system and the state of a run\<close>

text \<open>
  The files under the output directory, by path. An event that is a file-system
  operation changes them as \<open>fs_step\<close> says; \<open>emit\<close> performs an event and records
  it, so the files of a state are always the replay of its trace.
\<close>

type_synonym fs = "string \<Rightarrow> string option"

fun fs_step :: "event \<Rightarrow> fs \<Rightarrow> fs" where
  "fs_step (LockAcquire p) f = f(p \<mapsto> [])"
| "fs_step (LockRelease p) f = f(p := None)"
| "fs_step (OpenTrunc p) f = f(p \<mapsto> [])"
| "fs_step (Write p d) f = f(p \<mapsto> (case f p of None \<Rightarrow> d | Some c \<Rightarrow> c @ d))"
| "fs_step (Remove p) f = f(p := None)"
| "fs_step (Replace a b) f = (f(b := f a))(a := None)"
| "fs_step e f = f"

definition replay :: "event list \<Rightarrow> fs \<Rightarrow> fs" where
  "replay evs f = foldl (\<lambda>g e. fs_step e g) f evs"

record state =
  files :: fs
  trace :: "event list"

definition emit :: "event \<Rightarrow> state \<Rightarrow> state" where
  "emit e s = s\<lparr>files := fs_step e (files s), trace := trace s @ [e]\<rparr>"

definition emits :: "event list \<Rightarrow> state \<Rightarrow> state" where
  "emits evs s = foldl (\<lambda>t e. emit e t) s evs"

subsection \<open>The retrying fetcher\<close>

text \<open>
  The three exception classes the handlers of \<^verbatim>\<open>descargar_archivo\<close> tell apart,
  each with \<^verbatim>\<open>str(e)\<close>.
\<close>

datatype exn = PermissionError string | RequestException string | OtherException string

text \<open>
  How the acquisition loop of \<^verbatim>\<open>file_lock\<close> ends. The lock file is shared with
  other processes, so the exit is the environment's: the exclusive create succeeds
  (possibly after polling), an existing lock file is judged stale, removed and the
  create then succeeds, or the wait times out and \<^verbatim>\<open>IOError\<close> is raised.
\<close>

datatype lock_result = LockAcquired | LockEvicted | LockTimeout

datatype stream_end = StreamOk | StreamRequestError string | StreamOtherError string

text \<open>
  A response: \<open>content_length\<close> is \<^verbatim>\<open>int(response.headers.get('content-length', 0))\<close>,
  \<open>body_chunks\<close> are the chunks \<^verbatim>\<open>iter_content\<close> yields before it ends as
  \<open>stream_end\<close> says (in direct mode their concatenation is \<^verbatim>\<open>response.content\<close>).
\<close>

record response =
  status_code :: nat
  reason :: string
  content_length :: nat
  body_chunks :: "string list"
  stream_end :: stream_end

datatype get_result = GetRaises string | GetResponse response

datatype replace_result = ReplaceOk | ReplaceEACCES | ReplaceRaises exn

text \<open>
  What the world does during one attempt. \<open>rnd_jitter\<close> and \<open>rnd_extra\<close> are the two
  draws of \<^verbatim>\<open>random.random()\<close> behind \<^verbatim>\<open>random.uniform\<close>.
\<close>

record attempt_env =
  lock_result :: lock_result
  get_result :: get_result
  open_raises :: "exn option"
  replace_result :: replace_result
  rnd_jitter :: rat
  rnd_extra :: rat

text \<open>The environment variables read by the fetcher.\<close>

record config =
  DIRECT_DOWNLOAD :: bool
  DOWNLOAD_DELAY :: rat

definition retries :: nat where
  "retries = 5"

definition retry_delay :: rat where
  "retry_delay = 5"

definition temp_file_path :: "string \<Rightarrow> string" where
  "temp_file_path output_path = output_path @ ''.tmp''"

definition lock_file_path :: "string \<Rightarrow> string" where
  "lock_file_path output_path = output_path @ ''.lock''"

text \<open>\<^verbatim>\<open>random.uniform(a, b)\<close> is \<^verbatim>\<open>a + (b - a) * random()\<close>.\<close>

definition uniform :: "rat \<Rightarrow> rat \<Rightarrow> rat \<Rightarrow> rat" where
  "uniform a b r = a + (b - a) * r"

text \<open>
  \<^verbatim>\<open>response.raise_for_status()\<close> of the requests library: the text of the
  \<^verbatim>\<open>HTTPError\<close> it raises for a 4xx or 5xx status.
\<close>

definition raise_for_status :: "string \<Rightarrow> response \<Rightarrow> string option" where
  "raise_for_status url r =
     (if 400 \<le> status_code r \<and> status_code r < 500
      then Some (show_nat (status_code r) @ '' Client Error: '' @ reason r @ '' for url: '' @ url)
      else if 500 \<le> status_code r \<and> status_code r < 600
      then Some (show_nat (status_code r) @ '' Server Error: '' @ reason r @ '' for url: '' @ url)
      else None)"

definition auth_rejected :: string where
  "auth_rejected = ''Autenticacion NTLM rechazada (401 Unauthorized)''"

text \<open>The \<^verbatim>\<open>with file_lock(lock_file_path)\<close> entry.\<close>

definition file_lock_enter ::
  "callbacks \<Rightarrow> string \<Rightarrow> attempt_env \<Rightarrow> state \<Rightarrow> exn + state" where
  "file_lock_enter cb output_path env s =
     (case lock_result env of
        LockAcquired \<Rightarrow> Inr (emit (LockAcquire (lock_file_path output_path)) s)
      | LockEvicted \<Rightarrow>
          Inr (emits ([Remove (lock_file_path output_path)]
                      @ log cb (MsgLockCleaned (lock_file_path output_path))
                      @ [LockAcquire (lock_file_path output_path)]) s)
      | LockTimeout \<Rightarrow> Inl (OtherException ''File is locked by another process''))"

text \<open>
  The body of the \<^verbatim>\<open>with\<close> block: the request and the two status checks. The
  lock is released when the block is left, by exception or normally.
\<close>

definition locked_request ::
  "string \<Rightarrow> string \<Rightarrow> attempt_env \<Rightarrow> state \<Rightarrow> (exn + response) \<times> state" where
  "locked_request url output_path env s =
     (let s1 = emit (Request url) s;
          s2 = emit (LockRelease (lock_file_path output_path)) s1
      in case get_result env of
           GetRaises m \<Rightarrow> (Inl (RequestException m), s2)
         | GetResponse r \<Rightarrow>
             if status_code r = 401 then (Inl (PermissionError auth_rejected), s2)
             else (case raise_for_status url r of
                     Some m \<Rightarrow> (Inl (RequestException m), s2)
                   | None \<Rightarrow> (Inr r, s2)))"

text \<open>The chunk loop: empty chunks are skipped, each written chunk is followed by the
  throttling sleep when \<^verbatim>\<open>DOWNLOAD_DELAY > 0\<close>.\<close>

fun write_chunks :: "config \<Rightarrow> string \<Rightarrow> string list \<Rightarrow> state \<Rightarrow> state" where
  "write_chunks cfg tmp [] s = s"
| "write_chunks cfg tmp (chunk # rest) s =
     write_chunks cfg tmp rest
       (if chunk \<noteq> []
        then emits ([Write tmp chunk] @ (if DOWNLOAD_DELAY cfg > 0 then [Sleep Throttle (DOWNLOAD_DELAY cfg)] else [])) s
        else s)"

text \<open>
  The \<^verbatim>\<open>with open(temp_file_path, 'wb')\<close> block. The fetcher is called with
  \<^verbatim>\<open>progress_callback=None\<close> by its only caller, so the per-chunk progress report
  is absent.
\<close>

definition stream_to_temp ::
  "config \<Rightarrow> string \<Rightarrow> attempt_env \<Rightarrow> response \<Rightarrow> state \<Rightarrow> exn option \<times> state" where
  "stream_to_temp cfg output_path env r s =
     (case open_raises env of
        Some e \<Rightarrow> (Some e, s)
      | None \<Rightarrow>
          (let s1 = emit (OpenTrunc (temp_file_path output_path)) s in
           if DIRECT_DOWNLOAD cfg
           then (None, emit (Write (temp_file_path output_path) (concat (body_chunks r))) s1)
           else
             (let s2 = write_chunks cfg (temp_file_path output_path) (body_chunks r) s1 in
              case stream_end r of
                StreamOk \<Rightarrow> (None, s2)
              | StreamRequestError m \<Rightarrow> (Some (RequestException m), s2)
              | StreamOtherError m \<Rightarrow> (Some (OtherException m), s2))))"

text \<open>The size check: \<^verbatim>\<open>os.path.getsize\<close> raises when the file is gone.\<close>

definition verify_size :: "string \<Rightarrow> response \<Rightarrow> state \<Rightarrow> exn option" where
  "verify_size output_path r s =
     (if content_length r > 0
      then (case files s (temp_file_path output_path) of
              None \<Rightarrow> Some (OtherException ''getsize'')
            | Some c \<Rightarrow>
                if length c \<noteq> content_length r
                then Some (RequestException ''Downloaded file size mismatch'')
                else None)
      else None)"

datatype control = Return bool | Break | Continue

text \<open>The commit: \<^verbatim>\<open>os.replace\<close> and the handler of its \<^verbatim>\<open>OSError\<close>.\<close>

definition commit :: "callbacks \<Rightarrow> string \<Rightarrow> attempt_env \<Rightarrow> state \<Rightarrow> (exn + control) \<times> state" where
  "commit cb output_path env s =
     (case replace_result env of
        ReplaceOk \<Rightarrow>
          (Inr (Return True),
           emits ([Replace (temp_file_path output_path) output_path]
                  @ log cb (MsgDownloaded output_path)) s)
      | ReplaceEACCES \<Rightarrow>
          (Inr Continue, emits (err cb output_path MsgInUse @ [Sleep RenameWait 1]) s)
      | ReplaceRaises e \<Rightarrow> (Inl e, s))"

text \<open>The body of the outer \<^verbatim>\<open>try\<close>, up to the exception it raises or the way it
  leaves the loop body.\<close>

definition try_body ::
  "config \<Rightarrow> callbacks \<Rightarrow> string \<Rightarrow> string \<Rightarrow> nat \<Rightarrow> attempt_env \<Rightarrow> state \<Rightarrow>
   (exn + control) \<times> state" where
  "try_body cfg cb url output_path attempt env s =
     (let s1 = emits (log cb (MsgAttempt (attempt + 1) retries url)
                      @ (if attempt > 0 then [SessionClose] else [])) s
      in case file_lock_enter cb output_path env s1 of
           Inl e \<Rightarrow> (Inl e, emits (log cb (MsgLockedByOther output_path)) s1)
         | Inr s2 \<Rightarrow>
             (case locked_request url output_path env s2 of
                (Inl e, s3) \<Rightarrow> (Inl e, s3)
              | (Inr r, s3) \<Rightarrow>
                  (case stream_to_temp cfg output_path env r s3 of
                     (Some e, s4) \<Rightarrow> (Inl e, s4)
                   | (None, s4) \<Rightarrow>
                       (case verify_size output_path r s4 of
                          Some e \<Rightarrow> (Inl e, s4)
                        | None \<Rightarrow> commit cb output_path env s4))))"

text \<open>\<^verbatim>\<open>if os.path.exists(temp_file_path): os.remove(temp_file_path)\<close>\<close>

definition cleanup_temp :: "string \<Rightarrow> state \<Rightarrow> state" where
  "cleanup_temp output_path s =
     (if files s (temp_file_path output_path) \<noteq> None
      then emit (Remove (temp_file_path output_path)) s else s)"

definition server_error_text :: "string \<Rightarrow> bool" where
  "server_error_text m = (str_in ''503'' m \<or> str_in ''502'' m \<or> str_in ''504'' m)"

definition sleep_time :: "nat \<Rightarrow> attempt_env \<Rightarrow> string \<Rightarrow> rat" where
  "sleep_time attempt env m =
     retry_delay * 2 ^ attempt + uniform 0 1 (rnd_jitter env)
     + (if server_error_text m then uniform 5 15 (rnd_extra env) else 0)"

text \<open>The backoff of the \<^verbatim>\<open>RequestException\<close> handler.\<close>

definition backoff :: "callbacks \<Rightarrow> nat \<Rightarrow> attempt_env \<Rightarrow> string \<Rightarrow> state \<Rightarrow> state" where
  "backoff cb attempt env m s =
     (if attempt < retries - 1
      then emits ((if server_error_text m then log cb (MsgServerWait (sleep_time attempt env m)) else [])
                  @ [Sleep Backoff (sleep_time attempt env m)]) s
      else s)"

text \<open>
  One iteration of \<^verbatim>\<open>for attempt in range(retries)\<close>: the \<^verbatim>\<open>try\<close> body, the
  handler of what it raised, and \<^verbatim>\<open>finally: session.close()\<close>. The result is how
  the iteration leaves the loop body, the new value of \<^verbatim>\<open>last_exception\<close>, and
  the state.
\<close>

definition attempt_body ::
  "config \<Rightarrow> callbacks \<Rightarrow> string \<Rightarrow> string \<Rightarrow> nat \<Rightarrow> attempt_env \<Rightarrow> string option \<Rightarrow> state \<Rightarrow>
   control \<times> string option \<times> state" where
  "attempt_body cfg cb url output_path attempt env last_exception s =
     (case try_body cfg cb url output_path attempt env s of
        (Inr c, s1) \<Rightarrow> (c, last_exception, emit SessionClose s1)
      | (Inl (PermissionError m), s1) \<Rightarrow>
          (Break, Some m, emit SessionClose (emits (err cb output_path (MsgException m)) s1))
      | (Inl (RequestException m), s1) \<Rightarrow>
          (Continue, Some m,
           emit SessionClose
             (backoff cb attempt env m
               (cleanup_temp output_path
                 (emits (err cb output_path (MsgConnError (attempt + 1) m)) s1))))
      | (Inl (OtherException m), s1) \<Rightarrow>
          (Return False, last_exception,
           emit SessionClose
             (cleanup_temp output_path (emits (err cb output_path (MsgUnexpected m)) s1))))"

text \<open>What follows the loop when it is left by \<^verbatim>\<open>break\<close> or runs out.\<close>

definition after_loop :: "callbacks \<Rightarrow> string \<Rightarrow> string option \<Rightarrow> state \<Rightarrow> bool \<times> state" where
  "after_loop cb output_path last_exception s =
     (case last_exception of
        None \<Rightarrow> (False, s)
      | Some m \<Rightarrow> (False, emits (err cb output_path (MsgFailedAfter retries m)) s))"

text \<open>The loop, with \<open>remaining\<close> iterations left and \<open>attempt\<close> the next index.\<close>

fun retry_loop ::
  "config \<Rightarrow> callbacks \<Rightarrow> string \<Rightarrow> string \<Rightarrow> (nat \<Rightarrow> attempt_env) \<Rightarrow> nat \<Rightarrow> nat \<Rightarrow>
   string option \<Rightarrow> state \<Rightarrow> bool \<times> state" where
  "retry_loop cfg cb url output_path env 0 attempt last_exception s =
     after_loop cb output_path last_exception s"
| "retry_loop cfg cb url output_path env (Suc remaining) attempt last_exception s =
     (case attempt_body cfg cb url output_path attempt (env attempt) last_exception s of
        (Return b, _, s1) \<Rightarrow> (b, s1)
      | (Break, l, s1) \<Rightarrow> after_loop cb output_path l s1
      | (Continue, l, s1) \<Rightarrow> retry_loop cfg cb url output_path env remaining (Suc attempt) l s1)"

text \<open>\<^verbatim>\<open>descargar_archivo\<close>, with \<^verbatim>\<open>progress_callback=None\<close>.\<close>

definition descargar_archivo ::
  "config \<Rightarrow> callbacks \<Rightarrow> string \<Rightarrow> string \<Rightarrow> bool \<Rightarrow> (nat \<Rightarrow> attempt_env) \<Rightarrow> state \<Rightarrow>
   bool \<times> state" where
  "descargar_archivo cfg cb url output_path overwrite env s =
     (if files s output_path \<noteq> None \<and> \<not> overwrite
      then (True, emits (log cb (MsgSkipExisting output_path)) s)
      else retry_loop cfg cb url output_path env retries 0 None s)"

subsection \<open>The task planner\<close>

definition anios :: "nat list" where
  "anios = [2025, 2024, 2023, 2022, 2021, 2020, 2019, 2018]"

definition estados_tramite :: "string list" where
  "estados_tramite = [''A'', ''P'', ''B'', ''R'', ''D'', ''E'', ''N'']"

definition construir_url :: "nat \<Rightarrow> nat \<Rightarrow> string \<Rightarrow> string \<times> nat \<times> string" where
  "construir_url tipo anio estado =
     (''http://172.27.230.27/ReportServer'' @ ''?%2FAGV_PTP%2FRPT_INMIGRA_PTP_REGUL_CCM''
        @ ''&nidtipoTramite='' @ show_nat tipo @ ''&anio='' @ show_nat anio
        @ ''&EstadoTramite='' @ estado @ ''&rs:Format='' @ ''CSV'',
      anio, estado)"

definition urls_de_tipo :: "nat \<Rightarrow> (string \<times> nat \<times> string) list" where
  "urls_de_tipo tipo =
     concat (map (\<lambda>anio. map (\<lambda>estado. construir_url tipo anio estado) estados_tramite) anios)"

text \<open>\<^verbatim>\<open>generar_urls_por_partes\<close>: the dictionary in insertion order.\<close>

definition generar_urls_por_partes :: "(nat \<times> (string \<times> nat \<times> string) list) list" where
  "generar_urls_por_partes = map (\<lambda>tipo. (tipo, urls_de_tipo tipo)) [58, 57, 317, 55]"

subsection \<open>The download orchestrator\<close>

text \<open>
  Everything outside the program that a batch depends on: the working directory, how
  \<^verbatim>\<open>os.makedirs\<close> ends for a folder, the lock files found by \<^verbatim>\<open>os.walk\<close> (path,
  age, whether \<^verbatim>\<open>os.remove\<close> succeeds), the server and lock behaviour for each
  destination path and attempt, the result of \<^verbatim>\<open>glob\<close> for a folder, and how
  pandas reads and writes each file.
\<close>

record world =
  cwd :: string
  makedirs_raises :: "string \<Rightarrow> string option"
  lock_scan :: "(string \<times> rat \<times> bool) list"
  STALE_LOCK_MAX_AGE :: int
  fetch_env :: "string \<Rightarrow> nat \<Rightarrow> attempt_env"
  glob_csv :: "string \<Rightarrow> string list"
  read_csv :: "string \<Rightarrow> parse_result"
  to_csv :: "string \<Rightarrow> write_result"

text \<open>
  The loop of \<^verbatim>\<open>descargar_en_paralelo\<close> over its tasks. The pool runs the fetches
  concurrently and the results are read in submission order; here each fetch runs when
  its result is read, so the events of different fetches are not interleaved, while the
  progress reports are in the order the code makes them. Every fetch is submitted with
  \<^verbatim>\<open>progress_callback=None\<close> and \<^verbatim>\<open>overwrite=True\<close>. The fetcher
  catches every exception, so \<^verbatim>\<open>future.result()\<close> does not raise.
\<close>

text \<open>\<^verbatim>\<open>os.path.join(output_folder, f"{anio}_{estado}.csv")\<close>\<close>

definition file_path_of :: "string \<Rightarrow> nat \<Rightarrow> string \<Rightarrow> string" where
  "file_path_of output_folder anio estado =
     path_join output_folder (show_nat anio @ ''_'' @ estado @ ''.csv'')"

fun descargar_tasks ::
  "config \<Rightarrow> callbacks \<Rightarrow> (string \<Rightarrow> nat \<Rightarrow> attempt_env) \<Rightarrow> string \<Rightarrow> nat \<Rightarrow>
   (string \<times> nat \<times> string) list \<Rightarrow> nat \<Rightarrow> string list \<Rightarrow> state \<Rightarrow> string list \<times> state" where
  "descargar_tasks cfg cb fenv output_folder total_files [] completed_files downloaded_files s =
     (downloaded_files, s)"
| "descargar_tasks cfg cb fenv output_folder total_files ((url, anio, estado) # rest)
      completed_files downloaded_files s =
     (let file_path = file_path_of output_folder anio estado in
      case descargar_archivo cfg cb url file_path True (fenv file_path) s of
        (ok, s1) \<Rightarrow>
          descargar_tasks cfg cb fenv output_folder total_files rest (completed_files + 1)
            (if ok then downloaded_files @ [file_path] else downloaded_files)
            (emits (progress cb (of_nat (completed_files + 1) / of_nat total_files * 80)) s1))"

definition descargar_en_paralelo ::
  "config \<Rightarrow> callbacks \<Rightarrow> (string \<Rightarrow> nat \<Rightarrow> attempt_env) \<Rightarrow> nat \<Rightarrow>
   (string \<times> nat \<times> string) list \<Rightarrow> string \<Rightarrow> state \<Rightarrow> string list \<times> state" where
  "descargar_en_paralelo cfg cb fenv tipo urls output_folder s =
     descargar_tasks cfg cb fenv output_folder (length urls) urls 0 [] s"

subsection \<open>The batch entry point\<close>

datatype batch_error = KeyError_tipo nat | KeyError_module string | OSError string

definition tipos_tramite :: "(nat \<times> string) list" where
  "tipos_tramite = [(58, ''CCM''), (57, ''PRR'')]"

text \<open>\<^verbatim>\<open>crear_carpetas\<close>: an \<^verbatim>\<open>OSError\<close> of \<^verbatim>\<open>os.makedirs\<close> is not caught.\<close>

fun crear_carpetas_loop ::
  "world \<Rightarrow> (nat \<times> string) list \<Rightarrow> (nat \<times> string) list \<Rightarrow> state \<Rightarrow>
   (batch_error + (nat \<times> string) list) \<times> state" where
  "crear_carpetas_loop w [] output_folders s = (Inr output_folders, s)"
| "crear_carpetas_loop w ((tipo, nombre) # rest) output_folders s =
     (let folder = path_join (cwd w) (path_join ''descargas'' nombre) in
      case makedirs_raises w folder of
        Some e \<Rightarrow> (Inl (OSError e), s)
      | None \<Rightarrow> crear_carpetas_loop w rest (output_folders @ [(tipo, folder)]) (emit (Makedirs folder) s))"

definition crear_carpetas :: "world \<Rightarrow> state \<Rightarrow> (batch_error + (nat \<times> string) list) \<times> state" where
  "crear_carpetas w s = crear_carpetas_loop w tipos_tramite [] s"

text \<open>\<^verbatim>\<open>remove_stale_lock_files\<close>; the list it returns is not used by its caller.\<close>

fun remove_stale_lock_files :: "callbacks \<Rightarrow> int \<Rightarrow> (string \<times> rat \<times> bool) list \<Rightarrow> state \<Rightarrow> state" where
  "remove_stale_lock_files cb max_age [] s = s"
| "remove_stale_lock_files cb max_age ((lock_path, age, removable) # rest) s =
     remove_stale_lock_files cb max_age rest
       (if (max_age \<le> 0 \<or> age > of_int max_age) \<and> removable
        then emits ([Remove lock_path] @ log cb (MsgLockCleaned lock_path)) s
        else s)"

definition module_name_to_id :: "(string \<times> nat) list" where
  "module_name_to_id = [(''CCM'', 58), (''PRR'', 57)]"

definition id_to_name :: "(nat \<times> string) list" where
  "id_to_name = map (\<lambda>(k, v). (v, k)) module_name_to_id"

text \<open>
  \<^verbatim>\<open>[module_name_to_id[name] for name, selected in selected_modules.items() if selected]\<close>:
  a selected name that is no key raises \<^verbatim>\<open>KeyError\<close>.
\<close>

fun selected_ids :: "(string \<times> bool) list \<Rightarrow> batch_error + nat list" where
  "selected_ids [] = Inr []"
| "selected_ids ((name, selected) # rest) =
     (if selected
      then (case map_of module_name_to_id name of
              None \<Rightarrow> Inl (KeyError_module name)
            | Some i \<Rightarrow> (case selected_ids rest of Inl e \<Rightarrow> Inl e | Inr ids \<Rightarrow> Inr (i # ids)))
      else selected_ids rest)"

text \<open>A dictionary or \<^verbatim>\<open>None\<close> is truthy when it is a non-empty dictionary.\<close>

definition truthy :: "(string \<times> bool) list option \<Rightarrow> bool" where
  "truthy selected_modules = (case selected_modules of None \<Rightarrow> False | Some d \<Rightarrow> d \<noteq> [])"

definition output_file_of :: "string \<Rightarrow> string" where
  "output_file_of folder =
     path_join folder (''consolidado_total_'' @ basename folder @ ''.csv'')"

text \<open>
  The consolidation loop of the consolidate-only mode. The consolidator catches its own
  exceptions, so the \<^verbatim>\<open>except\<close> branch that clears \<^verbatim>\<open>consolidation_success\<close> is
  never entered and the flag keeps its initial \<^verbatim>\<open>True\<close>.
\<close>

fun consolidar_solo :: "callbacks \<Rightarrow> world \<Rightarrow> (nat \<times> string) list \<Rightarrow> state \<Rightarrow> state" where
  "consolidar_solo cb w [] s = s"
| "consolidar_solo cb w ((tipo, folder) # rest) s =
     consolidar_solo cb w rest
       (emits (log cb (MsgConsolidating (basename folder))
               @ consolidar_archivos_descargados cb (read_csv w) (to_csv w (output_file_of folder))
                   folder (output_file_of folder)
                   (filter (\<lambda>f. \<not> str_in ''consolidado_total'' f) (glob_csv w folder))
                   0 100) s)"

text \<open>The consolidation loop after the downloads, with
  \<^verbatim>\<open>downloaded_by_type.get(tipo, [])\<close>.\<close>

fun consolidar_descargas ::
  "callbacks \<Rightarrow> world \<Rightarrow> (nat \<times> string list) list \<Rightarrow> (nat \<times> string) list \<Rightarrow> state \<Rightarrow> state" where
  "consolidar_descargas cb w downloaded_by_type [] s = s"
| "consolidar_descargas cb w downloaded_by_type ((tipo, folder) # rest) s =
     consolidar_descargas cb w downloaded_by_type rest
       (emits (log cb (MsgConsolidating (basename folder))
               @ consolidar_archivos_descargados cb (read_csv w) (to_csv w (output_file_of folder))
                   folder (output_file_of folder)
                   (case map_of downloaded_by_type tipo of None \<Rightarrow> [] | Some fs \<Rightarrow> fs)
                   80 20) s)"

text \<open>
  The download loop \<^verbatim>\<open>for tipo, urls in urls_por_partes.items()\<close>. The lookup
  \<^verbatim>\<open>folders[tipo]\<close> raises \<^verbatim>\<open>KeyError\<close> for a type without folder.
\<close>

fun download_loop ::
  "config \<Rightarrow> callbacks \<Rightarrow> world \<Rightarrow> string \<Rightarrow> (nat \<times> string) list \<Rightarrow>
   (nat \<times> (string \<times> nat \<times> string) list) list \<Rightarrow> (nat \<times> string list) list \<Rightarrow> state \<Rightarrow>
   (batch_error + (nat \<times> string list) list) \<times> state" where
  "download_loop cfg cb w download_option folders [] downloaded_by_type s =
     (Inr downloaded_by_type, s)"
| "download_loop cfg cb w download_option folders ((tipo, urls) # rest) downloaded_by_type s =
     (let s1 = emits (log cb (MsgProcessingType tipo)) s in
      case map_of folders tipo of
        None \<Rightarrow> (Inl (KeyError_tipo tipo), s1)
      | Some output_folder \<Rightarrow>
          if download_option = ''missing''
          then
            (let urls_to_download =
                   filter (\<lambda>(url, anio, estado).
                             files s1 (file_path_of output_folder anio estado) = None)
                     urls
             in if urls_to_download \<noteq> []
                then (case descargar_en_paralelo cfg cb (fetch_env w) tipo urls_to_download output_folder
                             (emits (log cb (MsgDownloadingMissing (length urls_to_download))) s1) of
                        (downloaded, s2) \<Rightarrow>
                          download_loop cfg cb w download_option folders rest
                            (downloaded_by_type @ [(tipo, downloaded)]) s2)
                else download_loop cfg cb w download_option folders rest
                       (downloaded_by_type @ [(tipo, [])])
                       (emits (log cb MsgNothingMissing) s1))
          else
            (case descargar_en_paralelo cfg cb (fetch_env w) tipo urls output_folder
                    (emits (log cb MsgDownloadingAll) s1) of
               (downloaded, s2) \<Rightarrow>
                 download_loop cfg cb w download_option folders rest
                   (downloaded_by_type @ [(tipo, downloaded)]) s2))"

text \<open>
  \<^verbatim>\<open>descargar_y_consolidar\<close> after the folders have been created and filtered.
  The parameter \<^verbatim>\<open>overwrite\<close> is not read anywhere in the function.
  \<^verbatim>\<open>analyze_files\<close> of the missing mode only reads the file system and its result
  is not used.
\<close>

definition procesar ::
  "config \<Rightarrow> callbacks \<Rightarrow> world \<Rightarrow> string \<Rightarrow> (nat \<times> string) list \<Rightarrow>
   (nat \<times> (string \<times> nat \<times> string) list) list \<Rightarrow> state \<Rightarrow> (batch_error + bool option) \<times> state" where
  "procesar cfg cb w download_option folders urls_por_partes s =
     (if download_option = ''consolidate''
      then (Inr (Some True),
            emits (log cb MsgConsolidationDone)
              (consolidar_solo cb w folders (emits (log cb MsgStartConsolidation) s)))
      else
        (case download_loop cfg cb w download_option folders urls_por_partes []
                (emits (log cb MsgStartDownload) s) of
           (Inl e, s1) \<Rightarrow> (Inl e, s1)
         | (Inr downloaded_by_type, s1) \<Rightarrow>
             (Inr (Some True),
              emits (log cb MsgAllDone)
                (consolidar_descargas cb w downloaded_by_type folders
                   (emits (log cb MsgDownloadDone @ log cb MsgStartConsolidation) s1)))))"

text \<open>
  \<^verbatim>\<open>descargar_y_consolidar\<close>. The result is the exception that leaves the function,
  or what it returns: \<^verbatim>\<open>None\<close>, \<^verbatim>\<open>True\<close> or \<^verbatim>\<open>False\<close>.
\<close>

definition descargar_y_consolidar ::
  "config \<Rightarrow> callbacks \<Rightarrow> world \<Rightarrow> string \<Rightarrow> bool \<Rightarrow> (string \<times> bool) list option \<Rightarrow> state \<Rightarrow>
   (batch_error + bool option) \<times> state" where
  "descargar_y_consolidar cfg cb w download_option overwrite selected_modules s =
     (case crear_carpetas w s of
        (Inl e, s1) \<Rightarrow> (Inl e, s1)
      | (Inr all_folders, s1) \<Rightarrow>
          (let s2 = remove_stale_lock_files cb (STALE_LOCK_MAX_AGE w) (lock_scan w) s1 in
           if truthy selected_modules
           then
             (case selected_ids (the selected_modules) of
                Inl e \<Rightarrow> (Inl e, s2)
              | Inr ids \<Rightarrow>
                  (let folders = filter (\<lambda>(k, v). k \<in> set ids) all_folders in
                   if folders = [] then (Inr None, emits (log cb MsgNoModules) s2)
                   else procesar cfg cb w download_option folders
                          (filter (\<lambda>(k, v). k \<in> set ids) generar_urls_por_partes)
                          (emits (log cb (MsgSelected
                                    (map (\<lambda>(k, v). case map_of id_to_name k of None \<Rightarrow> [] | Some n \<Rightarrow> n)
                                       folders))) s2)))
           else procesar cfg cb w download_option all_folders generar_urls_por_partes s2))"

section \<open>Vocabulary of the properties\<close>

text \<open>
  The definitions of this section are not part of the program. They name what the
  theorems speak about, and give the concrete inputs of the examples.
\<close>

subsection \<open>Traces\<close>

text \<open>The events a run adds to the trace it started with.\<close>

definition new_events :: "state \<Rightarrow> state \<Rightarrow> event list" where
  "new_events s s' = drop (length (trace s)) (trace s')"

text \<open>The requests, the backoff delays and the progress values of a trace, in order.\<close>

fun request_of :: "event \<Rightarrow> nat" where
  "request_of (Request u) = 1"
| "request_of e = 0"

definition requests :: "event list \<Rightarrow> nat" where
  "requests evs = sum_list (map request_of evs)"

fun backoff_of :: "event \<Rightarrow> rat list" where
  "backoff_of (Sleep Backoff q) = [q]"
| "backoff_of e = []"

definition backoffs :: "event list \<Rightarrow> rat list" where
  "backoffs evs = concat (map backoff_of evs)"

fun progress_of :: "event \<Rightarrow> rat list" where
  "progress_of (Progress p) = [p]"
| "progress_of e = []"

definition progress_values :: "event list \<Rightarrow> rat list" where
  "progress_values evs = concat (map progress_of evs)"

text \<open>The events that write an output of the consolidator.\<close>

fun is_output :: "event \<Rightarrow> bool" where
  "is_output (Makedirs p) = True"
| "is_output (WriteCsv p rows) = True"
| "is_output e = False"

subsection \<open>The destination of a fetch\<close>

text \<open>
  An event leaves a path untouched when it is no file-system operation on it. A run from
  \<open>s\<close> to \<open>s'\<close> is quiet on a path when it only adds events that leave it untouched.
  It has committed when it was quiet up to the rename of the temporary file onto the
  destination, the temporary file then held a verified body, and it was quiet after.
  A body is verified for an attempt when it is everything the response of that attempt
  streamed, the stream ended normally, and its length is the advertised content length
  when one was advertised.
\<close>

fun untouched :: "string \<Rightarrow> event \<Rightarrow> bool" where
  "untouched p (LockAcquire q) = (q \<noteq> p)"
| "untouched p (LockRelease q) = (q \<noteq> p)"
| "untouched p (OpenTrunc q) = (q \<noteq> p)"
| "untouched p (Write q d) = (q \<noteq> p)"
| "untouched p (Remove q) = (q \<noteq> p)"
| "untouched p (Replace a b) = (a \<noteq> p \<and> b \<noteq> p)"
| "untouched p e = True"

definition quiet :: "string \<Rightarrow> state \<Rightarrow> state \<Rightarrow> bool" where
  "quiet p s s' =
     (\<exists>evs. trace s' = trace s @ evs \<and> files s' = replay evs (files s) \<and> list_all (untouched p) evs)"

definition verified_body :: "config \<Rightarrow> attempt_env \<Rightarrow> string \<Rightarrow> bool" where
  "verified_body cfg env c =
     (case get_result env of
        GetRaises m \<Rightarrow> False
      | GetResponse r \<Rightarrow>
          c = concat (body_chunks r)
          \<and> (content_length r = 0 \<or> length c = content_length r)
          \<and> (DIRECT_DOWNLOAD cfg \<or> stream_end r = StreamOk))"

definition committed :: "config \<Rightarrow> string \<Rightarrow> attempt_env \<Rightarrow> state \<Rightarrow> state \<Rightarrow> bool" where
  "committed cfg out env s s' =
     (\<exists>t c tail. quiet out s t \<and> files t (temp_file_path out) = Some c \<and> verified_body cfg env c
        \<and> s' = emits (Replace (temp_file_path out) out # tail) t \<and> list_all (untouched out) tail)"

subsection \<open>What one attempt comes to\<close>

text \<open>
  How the body of the \<^verbatim>\<open>try\<close> ends, read off the environment alone: the lemma
  \<open>fst_try_body\<close> below shows that \<open>try_body\<close> ends so in every state. The other
  functions give what the handlers make of it: how the loop goes on, the new value of
  \<^verbatim>\<open>last_exception\<close>, and the backoff delay slept.
\<close>

definition request_outcome :: "string \<Rightarrow> attempt_env \<Rightarrow> exn + response" where
  "request_outcome url env =
     (case get_result env of
        GetRaises m \<Rightarrow> Inl (RequestException m)
      | GetResponse r \<Rightarrow>
          if status_code r = 401 then Inl (PermissionError auth_rejected)
          else (case raise_for_status url r of
                  Some m \<Rightarrow> Inl (RequestException m)
                | None \<Rightarrow> Inr r))"

definition stream_outcome :: "config \<Rightarrow> attempt_env \<Rightarrow> response \<Rightarrow> exn option" where
  "stream_outcome cfg env r =
     (case open_raises env of
        Some e \<Rightarrow> Some e
      | None \<Rightarrow>
          if DIRECT_DOWNLOAD cfg then None
          else (case stream_end r of
                  StreamOk \<Rightarrow> None
                | StreamRequestError m \<Rightarrow> Some (RequestException m)
                | StreamOtherError m \<Rightarrow> Some (OtherException m)))"

definition size_outcome :: "response \<Rightarrow> exn option" where
  "size_outcome r =
     (if content_length r > 0 \<and> length (concat (body_chunks r)) \<noteq> content_length r
      then Some (RequestException ''Downloaded file size mismatch'') else None)"

definition commit_outcome :: "attempt_env \<Rightarrow> exn + control" where
  "commit_outcome env =
     (case replace_result env of
        ReplaceOk \<Rightarrow> Inr (Return True)
      | ReplaceEACCES \<Rightarrow> Inr Continue
      | ReplaceRaises e \<Rightarrow> Inl e)"

definition try_outcome :: "config \<Rightarrow> string \<Rightarrow> attempt_env \<Rightarrow> exn + control" where
  "try_outcome cfg url env =
     (if lock_result env = LockTimeout
      then Inl (OtherException ''File is locked by another process'')
      else
        (case request_outcome url env of
           Inl e \<Rightarrow> Inl e
         | Inr r \<Rightarrow>
             (case stream_outcome cfg env r of
                Some e \<Rightarrow> Inl e
              | None \<Rightarrow>
                  (case size_outcome r of
                     Some e \<Rightarrow> Inl e
                   | None \<Rightarrow> commit_outcome env))))"

fun next_control :: "exn + control \<Rightarrow> control" where
  "next_control (Inr c) = c"
| "next_control (Inl (PermissionError m)) = Break"
| "next_control (Inl (RequestException m)) = Continue"
| "next_control (Inl (OtherException m)) = Return False"

fun next_last :: "string option \<Rightarrow> exn + control \<Rightarrow> string option" where
  "next_last l (Inr c) = l"
| "next_last l (Inl (PermissionError m)) = Some m"
| "next_last l (Inl (RequestException m)) = Some m"
| "next_last l (Inl (OtherException m)) = l"

fun new_backoffs :: "nat \<Rightarrow> attempt_env \<Rightarrow> exn + control \<Rightarrow> rat list" where
  "new_backoffs a env (Inl (RequestException m)) = (if a < retries - 1 then [sleep_time a env m] else [])"
| "new_backoffs a env r = []"

text \<open>The events of entering the lock, when it is entered.\<close>

definition lock_events :: "callbacks \<Rightarrow> string \<Rightarrow> attempt_env \<Rightarrow> event list" where
  "lock_events cb out env =
     (if lock_result env = LockEvicted
      then [Remove (lock_file_path out)] @ log cb (MsgLockCleaned (lock_file_path out))
           @ [LockAcquire (lock_file_path out)]
      else [LockAcquire (lock_file_path out)])"

subsection \<open>Tasks of a batch\<close>

text \<open>
  The destination of a task, and whether its fetch succeeds when it is run alone, from
  an empty directory, in the environment the batch gives to its destination.
\<close>

definition task_path :: "string \<Rightarrow> string \<times> nat \<times> string \<Rightarrow> string" where
  "task_path output_folder t = (case t of (url, anio, estado) \<Rightarrow> file_path_of output_folder anio estado)"

definition task_succeeds ::
  "config \<Rightarrow> callbacks \<Rightarrow> (string \<Rightarrow> nat \<Rightarrow> attempt_env) \<Rightarrow> string \<Rightarrow> string \<times> nat \<times> string \<Rightarrow> bool" where
  "task_succeeds cfg cb fenv output_folder t =
     (case t of (url, anio, estado) \<Rightarrow>
        fst (descargar_archivo cfg cb url (file_path_of output_folder anio estado) True
               (fenv (file_path_of output_folder anio estado)) \<lparr>files = Map.empty, trace = []\<rparr>))"

text \<open>The folder \<^verbatim>\<open>crear_carpetas\<close> makes for a module.\<close>

definition carpeta :: "world \<Rightarrow> string \<Rightarrow> string" where
  "carpeta w nombre = path_join (cwd w) (path_join ''descargas'' nombre)"

text \<open>The progress values of a download phase of \<open>n\<close> tasks.\<close>

definition download_progress :: "nat \<Rightarrow> rat list" where
  "download_progress n = map (\<lambda>j. of_nat j / of_nat n * 80) [1..<Suc n]"

definition cb_progress :: "callbacks \<Rightarrow> nat \<Rightarrow> rat list" where
  "cb_progress cb n = (if progress_callback cb then download_progress n else [])"

subsection \<open>The rows a source file contributes\<close>

definition is_frame :: "parse_result \<Rightarrow> bool" where
  "is_frame r = (case r of Frame rows \<Rightarrow> True | _ \<Rightarrow> False)"

definition retained_rows :: "(string \<Rightarrow> parse_result) \<Rightarrow> string \<Rightarrow> out_row list" where
  "retained_rows rd archivo =
     (case rd archivo of Frame rows \<Rightarrow> map (tag_origin (basename archivo)) (keep_LM rows) | _ \<Rightarrow> [])"

subsection \<open>Concrete inputs\<close>

text \<open>
  Callbacks, a configuration (streaming, no throttling), responses, and environments in
  which the lock is free, the rename succeeds and both random draws are 1/2:
  \<open>ex_env g\<close> answers an attempt with \<open>g\<close>, \<open>ex_flaky k g\<close> times out \<open>k\<close> times
  and then answers with \<open>g\<close>, and \<open>ex_world g\<close> is a batch environment that answers
  every attempt of every task with \<open>g\<close>.
\<close>

definition no_callbacks :: callbacks where
  "no_callbacks = \<lparr>log_callback = False, error_callback = False, progress_callback = False\<rparr>"

definition ex_progress :: callbacks where
  "ex_progress = \<lparr>log_callback = False, error_callback = False, progress_callback = True\<rparr>"

definition ex_cfg :: config where
  "ex_cfg = \<lparr>DIRECT_DOWNLOAD = False, DOWNLOAD_DELAY = 0\<rparr>"

definition ex_response :: "nat \<Rightarrow> nat \<Rightarrow> string list \<Rightarrow> response" where
  "ex_response code len chunks =
     \<lparr>status_code = code, reason = ''r'', content_length = len, body_chunks = chunks,
      stream_end = StreamOk\<rparr>"

definition ex_env :: "get_result \<Rightarrow> attempt_env" where
  "ex_env g = \<lparr>lock_result = LockAcquired, get_result = g, open_raises = None,
     replace_result = ReplaceOk, rnd_jitter = 1 / 2, rnd_extra = 1 / 2\<rparr>"

definition ex_flaky :: "nat \<Rightarrow> get_result \<Rightarrow> nat \<Rightarrow> attempt_env" where
  "ex_flaky k g a =
     (if a < k then ex_env (GetRaises ''timeout'') else ex_env g)"

definition ex_state :: "fs \<Rightarrow> state" where
  "ex_state f = \<lparr>files = f, trace = []\<rparr>"

definition ex_rows :: "string \<Rightarrow> parse_result" where
  "ex_rows f =
     (if f = ''d/2025_A.csv''
      then Frame [\<lparr>NumeroTramite = ''LM001'', cells = [''x'']\<rparr>,
                  \<lparr>NumeroTramite = ''XX002'', cells = [''y'']\<rparr>]
      else if f = ''d/2025_P.csv''
      then Frame [\<lparr>NumeroTramite = ''XX003'', cells = [''z'']\<rparr>]
      else ReadError ''missing'')"

text \<open>
  Five source files for the consolidator: two with rows that are kept (one of them has a
  row that is dropped between two that are kept), one whose only row is dropped, one
  whose filter raises and, every other path, one that cannot be read.
\<close>

definition ex_partitions :: "string \<Rightarrow> parse_result" where
  "ex_partitions f =
     (if f = ''d/2025_D.csv''
      then Frame [\<lparr>NumeroTramite = ''LM005'', cells = [''v'']\<rparr>,
                  \<lparr>NumeroTramite = ''LM006'', cells = [''w'']\<rparr>]
      else if f = ''d/2025_A.csv''
      then Frame [\<lparr>NumeroTramite = ''LM001'', cells = [''x'']\<rparr>,
                  \<lparr>NumeroTramite = ''XX002'', cells = [''y'']\<rparr>,
                  \<lparr>NumeroTramite = ''LM003'', cells = [''z'']\<rparr>]
      else if f = ''d/2025_P.csv''
      then Frame [\<lparr>NumeroTramite = ''XX004'', cells = [''u'']\<rparr>]
      else if f = ''d/2025_C.csv''
      then FilterError ''NumeroTramite''
      else ReadError ''missing'')"

definition ex_world :: "get_result \<Rightarrow> world" where
  "ex_world g =
     \<lparr>cwd = ''C:'', makedirs_raises = (\<lambda>p. None), lock_scan = [], STALE_LOCK_MAX_AGE = 0,
      fetch_env = (\<lambda>p a. ex_env g), glob_csv = (\<lambda>p. []), read_csv = ex_rows,
      to_csv = (\<lambda>p. WriteOk)\<rparr>"


section \<open>The fetcher: auxiliary facts\<close>

lemma replay_simps [simp]:
  "replay [] f = f"
  "replay (e # evs) f = replay evs (fs_step e f)"
  "replay (evs @ evs') f = replay evs' (replay evs f)"
  by (simp_all add: replay_def)

lemma emits_Nil [simp]: "emits [] s = s"
  by (simp add: emits_def)

lemma emits_Cons: "emits (e # evs) s = emits evs (emit e s)"
  by (simp add: emits_def)

lemma trace_emits [simp]: "trace (emits evs s) = trace s @ evs"
  by (induction evs arbitrary: s) (simp_all add: emits_Cons emit_def)

lemma files_emits [simp]: "files (emits evs s) = replay evs (files s)"
  by (induction evs arbitrary: s) (simp_all add: emits_Cons emit_def)

lemma emits_emits [simp]: "emits evs' (emits evs s) = emits (evs @ evs') s"
  by (simp add: emits_def)

lemma emit_emits [simp]: "emit e s = emits [e] s"
  by (simp add: emits_def)

lemma untouched_step: "untouched p e \<Longrightarrow> fs_step e f p = f p"
  by (cases e) auto

lemma untouched_replay: "list_all (untouched p) evs \<Longrightarrow> replay evs f p = f p"
  by (induction evs arbitrary: f) (simp_all add: untouched_step)

lemma untouched_cb [simp]:
  "list_all (untouched p) (log cb m)"
  "list_all (untouched p) (err cb c m)"
  "list_all (untouched p) (progress cb q)"
  by (simp_all add: log_def err_def progress_def)

lemma side_paths [simp]:
  "temp_file_path p \<noteq> p" "lock_file_path p \<noteq> p"
  "p \<noteq> temp_file_path p" "p \<noteq> lock_file_path p"
  by (simp_all add: temp_file_path_def lock_file_path_def)

lemma quiet_refl [simp]: "quiet p s s"
  by (simp add: quiet_def)

lemma quiet_trans: "quiet p s t \<Longrightarrow> quiet p t u \<Longrightarrow> quiet p s u"
proof -
  assume "quiet p s t" and "quiet p t u"
  then obtain e1 e2 where
    1: "trace t = trace s @ e1" "files t = replay e1 (files s)" "list_all (untouched p) e1" and
    2: "trace u = trace t @ e2" "files u = replay e2 (files t)" "list_all (untouched p) e2"
    unfolding quiet_def by blast
  have "trace u = trace s @ (e1 @ e2) \<and> files u = replay (e1 @ e2) (files s)
        \<and> list_all (untouched p) (e1 @ e2)"
    using 1 2 by simp
  then show "quiet p s u" unfolding quiet_def by blast
qed

lemma quiet_emits [simp]: "list_all (untouched p) evs \<Longrightarrow> quiet p s (emits evs s)"
  unfolding quiet_def by (rule exI [of _ evs]) simp

lemma quiet_files: "quiet p s t \<Longrightarrow> files t p = files s p"
  unfolding quiet_def by (elim exE conjE) (simp add: untouched_replay)

lemma quiet_file_lock_enter:
  "file_lock_enter cb out env s = Inr s' \<Longrightarrow> quiet out s s'"
  unfolding file_lock_enter_def by (cases "lock_result env") auto

lemma quiet_locked_request: "quiet out s (snd (locked_request url out env s))"
  unfolding locked_request_def Let_def
  by (simp split: get_result.splits option.splits)

lemma write_chunks_Cons:
  "write_chunks cfg tmp (c # chunks) s =
     write_chunks cfg tmp chunks
       (emits (if c \<noteq> [] then [Write tmp c] @ (if DOWNLOAD_DELAY cfg > 0 then [Sleep Throttle (DOWNLOAD_DELAY cfg)] else []) else []) s)"
  by simp

lemma quiet_write_chunks: "quiet out s (write_chunks cfg (temp_file_path out) chunks s)"
proof (induction chunks arbitrary: s)
  case Nil
  show ?case by simp
next
  case (Cons c chunks)
  show ?case
    unfolding write_chunks_Cons
    by (rule quiet_trans [OF _ Cons.IH]) simp
qed

lemma files_write_chunks:
  "files s tmp = Some c \<Longrightarrow> files (write_chunks cfg tmp chunks s) tmp = Some (c @ concat chunks)"
proof (induction chunks arbitrary: s c)
  case Nil
  then show ?case by simp
next
  case (Cons d chunks)
  show ?case
    unfolding write_chunks_Cons
    using Cons.prems by (subst Cons.IH [where c = "c @ d"]) auto
qed

lemma quiet_stream_to_temp: "quiet out s (snd (stream_to_temp cfg out env r s))"
proof -
  have w: "quiet out s (write_chunks cfg (temp_file_path out) (body_chunks r) (emits [OpenTrunc (temp_file_path out)] s))"
    by (rule quiet_trans [OF _ quiet_write_chunks]) simp
  show ?thesis
    unfolding stream_to_temp_def Let_def
    using w by (simp split: option.splits stream_end.splits)
qed

lemma files_stream_to_temp:
  "stream_to_temp cfg out env r s = (None, s') \<Longrightarrow>
   files s' (temp_file_path out) = Some (concat (body_chunks r))
   \<and> (DIRECT_DOWNLOAD cfg \<or> stream_end r = StreamOk)"
  using files_write_chunks [of "emits [OpenTrunc (temp_file_path out)] s" "temp_file_path out" "[]" cfg "body_chunks r"]
  unfolding stream_to_temp_def Let_def
  by (auto split: option.splits stream_end.splits if_splits)

lemma quiet_cleanup_temp: "quiet out s (cleanup_temp out s)"
  unfolding cleanup_temp_def by simp

lemma quiet_backoff: "quiet out s (backoff cb a env m s)"
  unfolding backoff_def by simp


lemma locked_request_Inr:
  "locked_request url out env s = (Inr r, s') \<Longrightarrow> get_result env = GetResponse r"
  unfolding locked_request_def Let_def
  by (auto split: get_result.splits option.splits if_splits)

lemma verify_size_None:
  "verify_size out r s = None \<Longrightarrow> files s (temp_file_path out) = Some c \<Longrightarrow>
   content_length r = 0 \<or> length c = content_length r"
  unfolding verify_size_def by (auto split: if_splits)

lemma commit_cases:
  "commit cb out env s = (r, s') \<Longrightarrow>
   (r = Inr (Return True) \<and> s' = emits (Replace (temp_file_path out) out # log cb (MsgDownloaded out)) s)
   \<or> (r \<noteq> Inr (Return True) \<and> quiet out s s')"
  unfolding commit_def by (cases "replace_result env") auto

lemma try_body_safe:
  assumes "try_body cfg cb url out a env s = (r, s')"
  shows "if r = Inr (Return True) then committed cfg out env s s' else quiet out s s'"
proof -
  define s1 where "s1 = emits (log cb (MsgAttempt (a + 1) retries url) @ (if a > 0 then [SessionClose] else [])) s"
  have q1: "quiet out s s1" unfolding s1_def by simp
  show ?thesis
  proof (cases "file_lock_enter cb out env s1")
    case (Inl e)
    then have "r = Inl e" "s' = emits (log cb (MsgLockedByOther out)) s1"
      using assms unfolding try_body_def Let_def s1_def by simp_all
    then show ?thesis using quiet_trans [OF q1] by simp
  next
    case (Inr s2)
    have q2: "quiet out s s2" using quiet_trans [OF q1 quiet_file_lock_enter [OF Inr]] .
    obtain x s3 where L: "locked_request url out env s2 = (x, s3)"
      by (cases "locked_request url out env s2")
    have q3: "quiet out s s3" using quiet_trans [OF q2 quiet_locked_request [of out s2 url env]] L by simp
    show ?thesis
    proof (cases x)
      case (Inl e)
      then have "r = Inl e" "s' = s3"
        using assms Inr L unfolding try_body_def Let_def s1_def by simp_all
      then show ?thesis using q3 by simp
    next
      case x: (Inr resp)
      obtain y s4 where S: "stream_to_temp cfg out env resp s3 = (y, s4)"
        by (cases "stream_to_temp cfg out env resp s3")
      have q4: "quiet out s s4"
        using quiet_trans [OF q3 quiet_stream_to_temp [of out s3 cfg env resp]] S by simp
      show ?thesis
      proof (cases y)
        case (Some e)
        then have "r = Inl e" "s' = s4"
          using assms Inr L x S unfolding try_body_def Let_def s1_def by simp_all
        then show ?thesis using q4 by simp
      next
        case None
        note y = None
        have f4: "files s4 (temp_file_path out) = Some (concat (body_chunks resp))"
          and e4: "DIRECT_DOWNLOAD cfg \<or> stream_end resp = StreamOk"
          using files_stream_to_temp [of cfg out env resp s3 s4] S y by simp_all
        show ?thesis
        proof (cases "verify_size out resp s4")
          case (Some e)
          then have "r = Inl e" "s' = s4"
            using assms Inr L x S y unfolding try_body_def Let_def s1_def by simp_all
          then show ?thesis using q4 by simp
        next
          case None
          then have C: "commit cb out env s4 = (r, s')"
            using assms Inr L x S y unfolding try_body_def Let_def s1_def by simp
          have v: "verified_body cfg env (concat (body_chunks resp))"
            using locked_request_Inr [of url out env s2 resp s3] L x
              verify_size_None [OF None f4] e4
            unfolding verified_body_def by simp
          from commit_cases [OF C] show ?thesis
          proof
            assume A: "r = Inr (Return True) \<and> s' = emits (Replace (temp_file_path out) out # log cb (MsgDownloaded out)) s4"
            have "committed cfg out env s s'"
              unfolding committed_def
              using q4 f4 v A by (intro exI [of _ s4] exI [of _ "concat (body_chunks resp)"] exI [of _ "log cb (MsgDownloaded out)"]) simp
            then show ?thesis using A by simp
          next
            assume "r \<noteq> Inr (Return True) \<and> quiet out s4 s'"
            then show ?thesis using quiet_trans [OF q4] by simp
          qed
        qed
      qed
    qed
  qed
qed


lemma committed_then_emits:
  "committed cfg out env s t \<Longrightarrow> list_all (untouched out) evs \<Longrightarrow> committed cfg out env s (emits evs t)"
proof -
  assume "committed cfg out env s t" and u: "list_all (untouched out) evs"
  then obtain t0 c tail where
    h: "quiet out s t0" "files t0 (temp_file_path out) = Some c" "verified_body cfg env c"
       "t = emits (Replace (temp_file_path out) out # tail) t0" "list_all (untouched out) tail"
    unfolding committed_def by blast
  have "emits evs t = emits (Replace (temp_file_path out) out # (tail @ evs)) t0"
    using h(4) by simp
  moreover have "list_all (untouched out) (tail @ evs)" using h(5) u by simp
  ultimately show ?thesis unfolding committed_def using h(1-3) by blast
qed

lemma quiet_then_committed:
  "quiet out s t \<Longrightarrow> committed cfg out env t u \<Longrightarrow> committed cfg out env s u"
  unfolding committed_def using quiet_trans by blast

lemma attempt_body_safe:
  assumes "attempt_body cfg cb url out a env l s = (c, l', s')"
  shows "if c = Return True then committed cfg out env s s' else quiet out s s'"
proof -
  obtain r s1 where T: "try_body cfg cb url out a env s = (r, s1)"
    by (cases "try_body cfg cb url out a env s")
  note safe = try_body_safe [OF T]
  show ?thesis
  proof (cases r)
    case (Inr c0)
    then have e: "c = c0" "s' = emits [SessionClose] s1"
      using assms T unfolding attempt_body_def by simp_all
    show ?thesis
    proof (cases "c0 = Return True")
      case True
      then show ?thesis using safe Inr e committed_then_emits [of cfg out env s s1 "[SessionClose]"] by simp
    next
      case False
      then show ?thesis using safe Inr e quiet_trans [of out s s1 s'] by simp
    qed
  next
    case (Inl x)
    then have q: "quiet out s s1" using safe by simp
    show ?thesis
    proof (cases x)
      case (PermissionError m)
      then have "c = Break" "s' = emits [SessionClose] (emits (err cb out (MsgException m)) s1)"
        using assms T Inl unfolding attempt_body_def by simp_all
      then show ?thesis using quiet_trans [OF q] by simp
    next
      case (RequestException m)
      then have e: "c = Continue"
        "s' = emits [SessionClose] (backoff cb a env m (cleanup_temp out (emits (err cb out (MsgConnError (a + 1) m)) s1)))"
        using assms T Inl unfolding attempt_body_def by simp_all
      have "quiet out s1 (emits (err cb out (MsgConnError (a + 1) m)) s1)" by simp
      from quiet_trans [OF this quiet_cleanup_temp] have "quiet out s1 (cleanup_temp out (emits (err cb out (MsgConnError (a + 1) m)) s1))" .
      from quiet_trans [OF this quiet_backoff]
      have "quiet out s1 (backoff cb a env m (cleanup_temp out (emits (err cb out (MsgConnError (a + 1) m)) s1)))" .
      from quiet_trans [OF this, of s'] have "quiet out s1 s'" unfolding e(2) by simp
      then show ?thesis using e(1) quiet_trans [OF q] by simp
    next
      case (OtherException m)
      then have e: "c = Return False"
        "s' = emits [SessionClose] (cleanup_temp out (emits (err cb out (MsgUnexpected m)) s1))"
        using assms T Inl unfolding attempt_body_def by simp_all
      have "quiet out s1 (emits (err cb out (MsgUnexpected m)) s1)" by simp
      from quiet_trans [OF this quiet_cleanup_temp]
      have "quiet out s1 (cleanup_temp out (emits (err cb out (MsgUnexpected m)) s1))" .
      from quiet_trans [OF this, of s'] have "quiet out s1 s'" unfolding e(2) by simp
      then show ?thesis using e(1) quiet_trans [OF q] by simp
    qed
  qed
qed

lemma after_loop_safe: "after_loop cb out l s = (ok, s') \<Longrightarrow> \<not> ok \<and> quiet out s s'"
  unfolding after_loop_def by (cases l) auto

lemma retry_loop_safe:
  "retry_loop cfg cb url out env rem a l s = (ok, s') \<Longrightarrow>
   (if ok then (\<exists>i. a \<le> i \<and> i < a + rem \<and> committed cfg out (env i) s s') else quiet out s s')"
proof (induction rem arbitrary: a l s)
  case 0
  then show ?case using after_loop_safe [of cb out l s ok s'] by simp
next
  case (Suc rem)
  obtain c l1 s1 where A: "attempt_body cfg cb url out a (env a) l s = (c, l1, s1)"
    by (cases "attempt_body cfg cb url out a (env a) l s")
  note safe = attempt_body_safe [OF A]
  show ?case
  proof (cases c)
    case (Return b)
    then have e: "ok = b" "s' = s1" using Suc.prems A by simp_all
    show ?thesis
    proof (cases b)
      case True
      then have "committed cfg out (env a) s s'" using safe Return e by simp
      then show ?thesis using e True by (auto intro!: exI [of _ a])
    next
      case False
      then show ?thesis using safe Return e by simp
    qed
  next
    case Break
    then have "after_loop cb out l1 s1 = (ok, s')" using Suc.prems A by simp
    from after_loop_safe [OF this] show ?thesis using safe Break quiet_trans [of out s s1 s'] by simp
  next
    case Continue
    then have R: "retry_loop cfg cb url out env rem (Suc a) l1 s1 = (ok, s')" using Suc.prems A by simp
    have q: "quiet out s s1" using safe Continue by simp
    from Suc.IH [OF R] show ?thesis
    proof (cases ok)
      case True
      with Suc.IH [OF R] obtain i where i: "Suc a \<le> i" "i < Suc a + rem" "committed cfg out (env i) s1 s'"
        by auto
      have "committed cfg out (env i) s s'" using quiet_then_committed [OF q i(3)] .
      then show ?thesis using True i by (auto intro!: exI [of _ i])
    next
      case False
      with Suc.IH [OF R] show ?thesis using quiet_trans [OF q] by simp
    qed
  qed
qed

lemma descargar_archivo_safe:
  assumes "descargar_archivo cfg cb url out ow env s = (ok, s')"
  shows "quiet out s s' \<or> (ok \<and> (\<exists>i<retries. committed cfg out (env i) s s'))"
proof (cases "files s out \<noteq> None \<and> \<not> ow")
  case True
  then have "s' = emits (log cb (MsgSkipExisting out)) s"
    using assms unfolding descargar_archivo_def by simp
  then show ?thesis by simp
next
  case False
  then have "retry_loop cfg cb url out env retries 0 None s = (ok, s')"
    using assms unfolding descargar_archivo_def by (auto split: if_splits)
  from retry_loop_safe [OF this] show ?thesis by (cases ok) auto
qed

lemma new_events_quiet:
  assumes "quiet p s s'"
  shows "files s' = replay (new_events s s') (files s)"
    and "replay (take n (new_events s s')) (files s) p = files s p"
proof -
  from assms obtain evs where
    h: "trace s' = trace s @ evs" "files s' = replay evs (files s)" "list_all (untouched p) evs"
    unfolding quiet_def by blast
  have n: "new_events s s' = evs" unfolding new_events_def using h(1) by simp
  show "files s' = replay (new_events s s') (files s)" using n h(2) by simp
  have "list_all (untouched p) (take n evs)"
    using h(3) unfolding list_all_iff by (meson in_set_takeD)
  then show "replay (take n (new_events s s')) (files s) p = files s p"
    using n untouched_replay by simp
qed

lemma new_events_committed:
  assumes "committed cfg out env s s'"
  shows "files s' = replay (new_events s s') (files s)"
    and "replay (take n (new_events s s')) (files s) out = files s out
         \<or> (\<exists>c. replay (take n (new_events s s')) (files s) out = Some c \<and> verified_body cfg env c)"
proof -
  from assms obtain t c tail where
    h: "quiet out s t" "files t (temp_file_path out) = Some c" "verified_body cfg env c"
       "s' = emits (Replace (temp_file_path out) out # tail) t" "list_all (untouched out) tail"
    unfolding committed_def by blast
  from h(1) obtain evs where
    g: "trace t = trace s @ evs" "files t = replay evs (files s)" "list_all (untouched out) evs"
    unfolding quiet_def by blast
  have n: "new_events s s' = evs @ Replace (temp_file_path out) out # tail"
    unfolding new_events_def using h(4) g(1) by simp
  show "files s' = replay (new_events s s') (files s)"
    using n h(4) g(2) by simp
  show "replay (take n (new_events s s')) (files s) out = files s out
         \<or> (\<exists>c. replay (take n (new_events s s')) (files s) out = Some c \<and> verified_body cfg env c)"
  proof (cases "n \<le> length evs")
    case True
    have "list_all (untouched out) (take n evs)"
      using g(3) unfolding list_all_iff by (meson in_set_takeD)
    then show ?thesis using n True untouched_replay by simp
  next
    case False
    then obtain k where k: "n = length evs + Suc k"
      by (metis add_Suc_right less_imp_Suc_add not_le)
    have u: "list_all (untouched out) (take k tail)"
      using h(5) unfolding list_all_iff by (meson in_set_takeD)
    have "take n (new_events s s') = evs @ Replace (temp_file_path out) out # take k tail"
      using n k by simp
    then have "replay (take n (new_events s s')) (files s) out
        = fs_step (Replace (temp_file_path out) out) (files t) out"
      using g(2) u untouched_replay by simp
    also have "\<dots> = Some c" using h(2) by simp
    finally show ?thesis using h(3) by blast
  qed
qed


lemma requests_simps [simp]:
  "requests [] = 0"
  "requests (e # evs) = request_of e + requests evs"
  "requests (evs @ evs') = requests evs + requests evs'"
  "requests (log cb m) = 0"
  "requests (err cb c m) = 0"
  "requests (progress cb q) = 0"
  by (simp_all add: requests_def log_def err_def progress_def)

lemma backoffs_simps [simp]:
  "backoffs [] = []"
  "backoffs (e # evs) = backoff_of e @ backoffs evs"
  "backoffs (evs @ evs') = backoffs evs @ backoffs evs'"
  "backoffs (log cb m) = []"
  "backoffs (err cb c m) = []"
  "backoffs (progress cb q) = []"
  by (simp_all add: backoffs_def log_def err_def progress_def)

lemma progress_values_simps [simp]:
  "progress_values [] = []"
  "progress_values (e # evs) = progress_of e @ progress_values evs"
  "progress_values (evs @ evs') = progress_values evs @ progress_values evs'"
  "progress_values (log cb m) = []"
  "progress_values (err cb c m) = []"
  by (simp_all add: progress_values_def log_def err_def)

lemma counts_write_chunks [simp]:
  "requests (trace (write_chunks cfg tmp chunks s)) = requests (trace s)"
  "backoffs (trace (write_chunks cfg tmp chunks s)) = backoffs (trace s)"
proof (induction chunks arbitrary: s)
  case Nil
  { case 1 show ?case by simp }
  { case 2 show ?case by simp }
next
  case (Cons c chunks)
  { case 1 show ?case unfolding write_chunks_Cons by (simp add: Cons.IH) }
  { case 2 show ?case unfolding write_chunks_Cons by (simp add: Cons.IH) }
qed

lemma progress_write_chunks [simp]:
  "progress_values (trace (write_chunks cfg tmp chunks s)) = progress_values (trace s)"
proof (induction chunks arbitrary: s)
  case Nil
  show ?case by simp
next
  case (Cons c chunks)
  show ?case unfolding write_chunks_Cons by (simp add: Cons.IH)
qed

lemma files_open_write_chunks [simp]:
  "files (write_chunks cfg tmp chunks (emits (evs @ [OpenTrunc tmp]) s)) tmp = Some (concat chunks)"
  using files_write_chunks [of "emits (evs @ [OpenTrunc tmp]) s" tmp "[]" cfg chunks] by simp



lemma file_lock_enter_Inl:
  "file_lock_enter cb out env s = Inl e \<Longrightarrow>
   lock_result env = LockTimeout \<and> e = OtherException ''File is locked by another process''"
  unfolding file_lock_enter_def by (cases "lock_result env") auto

lemma file_lock_enter_Inr:
  "file_lock_enter cb out env s = Inr s' \<Longrightarrow>
   lock_result env \<noteq> LockTimeout \<and> requests (trace s') = requests (trace s)
   \<and> backoffs (trace s') = backoffs (trace s)
   \<and> progress_values (trace s') = progress_values (trace s)"
  unfolding file_lock_enter_def by (cases "lock_result env") auto

lemma locked_request_facts:
  "locked_request url out env s = (x, s') \<Longrightarrow>
   request_outcome url env = x \<and> requests (trace s') = requests (trace s) + 1
   \<and> backoffs (trace s') = backoffs (trace s)
   \<and> progress_values (trace s') = progress_values (trace s)"
  unfolding locked_request_def request_outcome_def Let_def
  by (auto split: get_result.splits option.splits if_splits)

lemma stream_to_temp_facts:
  "stream_to_temp cfg out env r s = (y, s') \<Longrightarrow>
   stream_outcome cfg env r = y \<and> requests (trace s') = requests (trace s)
   \<and> backoffs (trace s') = backoffs (trace s)
   \<and> progress_values (trace s') = progress_values (trace s)"
  unfolding stream_to_temp_def stream_outcome_def Let_def
  by (auto split: option.splits stream_end.splits if_splits)

lemma verify_size_facts:
  "files s (temp_file_path out) = Some (concat (body_chunks r)) \<Longrightarrow>
   verify_size out r s = size_outcome r"
  unfolding verify_size_def size_outcome_def by simp

lemma commit_facts:
  "commit cb out env s = (x, s') \<Longrightarrow>
   commit_outcome env = x \<and> requests (trace s') = requests (trace s)
   \<and> backoffs (trace s') = backoffs (trace s)
   \<and> progress_values (trace s') = progress_values (trace s)"
  unfolding commit_def commit_outcome_def
  by (auto split: replace_result.splits)

lemma try_body_facts:
  assumes "try_body cfg cb url out a env s = (r, s')"
  shows "try_outcome cfg url env = r \<and> progress_values (trace s') = progress_values (trace s)
    \<and> backoffs (trace s') = backoffs (trace s)
    \<and> requests (trace s') = requests (trace s) + (if lock_result env = LockTimeout then 0 else 1)"
proof -
  define s1 where "s1 = emits (log cb (MsgAttempt (a + 1) retries url) @ (if a > 0 then [SessionClose] else [])) s"
  have c1: "requests (trace s1) = requests (trace s)" "backoffs (trace s1) = backoffs (trace s)"
    "progress_values (trace s1) = progress_values (trace s)"
    unfolding s1_def by simp_all
  show ?thesis
  proof (cases "file_lock_enter cb out env s1")
    case (Inl e)
    then have "r = Inl e" "s' = emits (log cb (MsgLockedByOther out)) s1"
      using assms unfolding try_body_def Let_def s1_def by simp_all
    then show ?thesis using file_lock_enter_Inl [OF Inl] c1 by (simp add: try_outcome_def)
  next
    case (Inr s2)
    note c2 = file_lock_enter_Inr [OF Inr]
    obtain x s3 where L: "locked_request url out env s2 = (x, s3)"
      by (cases "locked_request url out env s2")
    note c3 = locked_request_facts [OF L]
    show ?thesis
    proof (cases x)
      case (Inl e)
      then have "r = Inl e" "s' = s3"
        using assms Inr L unfolding try_body_def Let_def s1_def by simp_all
      then show ?thesis using c1 c2 c3 Inl by (simp add: try_outcome_def)
    next
      case x: (Inr resp)
      obtain y s4 where S: "stream_to_temp cfg out env resp s3 = (y, s4)"
        by (cases "stream_to_temp cfg out env resp s3")
      note c4 = stream_to_temp_facts [OF S]
      show ?thesis
      proof (cases y)
        case (Some e)
        then have "r = Inl e" "s' = s4"
          using assms Inr L x S unfolding try_body_def Let_def s1_def by simp_all
        then show ?thesis using c1 c2 c3 c4 x Some by (simp add: try_outcome_def)
      next
        case None
        note y = None
        have f4: "files s4 (temp_file_path out) = Some (concat (body_chunks resp))"
          using files_stream_to_temp [of cfg out env resp s3 s4] S y by simp
        note v = verify_size_facts [OF f4]
        show ?thesis
        proof (cases "size_outcome resp")
          case (Some e)
          then have "r = Inl e" "s' = s4"
            using assms Inr L x S y v unfolding try_body_def Let_def s1_def by simp_all
          then show ?thesis using c1 c2 c3 c4 x y Some by (simp add: try_outcome_def)
        next
          case None
          then have C: "commit cb out env s4 = (r, s')"
            using assms Inr L x S y v unfolding try_body_def Let_def s1_def by simp
          note c5 = commit_facts [OF C]
          show ?thesis using c1 c2 c3 c4 c5 x y None by (simp add: try_outcome_def)
        qed
      qed
    qed
  qed
qed

lemma fst_try_body: "fst (try_body cfg cb url out a env s) = try_outcome cfg url env"
  using try_body_facts [of cfg cb url out a env s] by (cases "try_body cfg cb url out a env s") simp


lemma counts_cleanup_temp [simp]:
  "requests (trace (cleanup_temp out s)) = requests (trace s)"
  "backoffs (trace (cleanup_temp out s)) = backoffs (trace s)"
  "progress_values (trace (cleanup_temp out s)) = progress_values (trace s)"
  unfolding cleanup_temp_def by simp_all

lemma counts_backoff [simp]:
  "requests (trace (backoff cb a env m s)) = requests (trace s)"
  "backoffs (trace (backoff cb a env m s)) =
     backoffs (trace s) @ (if a < retries - 1 then [sleep_time a env m] else [])"
  "progress_values (trace (backoff cb a env m s)) = progress_values (trace s)"
  unfolding backoff_def by simp_all

lemma attempt_body_facts:
  assumes "attempt_body cfg cb url out a env l s = (c, l', s')"
  shows "c = next_control (try_outcome cfg url env) \<and> l' = next_last l (try_outcome cfg url env)
    \<and> requests (trace s') = requests (trace s) + (if lock_result env = LockTimeout then 0 else 1)
    \<and> backoffs (trace s') = backoffs (trace s) @ new_backoffs a env (try_outcome cfg url env)
    \<and> progress_values (trace s') = progress_values (trace s)"
proof -
  obtain r s1 where T: "try_body cfg cb url out a env s = (r, s1)"
    by (cases "try_body cfg cb url out a env s")
  note f = try_body_facts [OF T]
  show ?thesis
  proof (cases r)
    case (Inr c0)
    then have "c = c0" "l' = l" "s' = emits [SessionClose] s1"
      using assms T unfolding attempt_body_def by simp_all
    then show ?thesis using f Inr by simp
  next
    case (Inl x)
    show ?thesis
    proof (cases x)
      case (PermissionError m)
      then have "c = Break" "l' = Some m" "s' = emits [SessionClose] (emits (err cb out (MsgException m)) s1)"
        using assms T Inl unfolding attempt_body_def by simp_all
      then show ?thesis using f Inl PermissionError by simp
    next
      case (RequestException m)
      then have "c = Continue" "l' = Some m"
        "s' = emits [SessionClose] (backoff cb a env m (cleanup_temp out (emits (err cb out (MsgConnError (a + 1) m)) s1)))"
        using assms T Inl unfolding attempt_body_def by simp_all
      then show ?thesis using f Inl RequestException by simp
    next
      case (OtherException m)
      then have "c = Return False" "l' = l"
        "s' = emits [SessionClose] (cleanup_temp out (emits (err cb out (MsgUnexpected m)) s1))"
        using assms T Inl unfolding attempt_body_def by simp_all
      then show ?thesis using f Inl OtherException by simp
    qed
  qed
qed

lemma length_new_backoffs: "length (new_backoffs a env r) \<le> (if a < retries - 1 then 1 else 0)"
  by (cases "(a, env, r)" rule: new_backoffs.cases) auto

lemma after_loop_counts:
  "after_loop cb out l s = (ok, s') \<Longrightarrow>
   \<not> ok \<and> requests (trace s') = requests (trace s) \<and> backoffs (trace s') = backoffs (trace s)
   \<and> progress_values (trace s') = progress_values (trace s)"
  unfolding after_loop_def by (cases l) auto

lemma fst_after_loop: "fst (after_loop cb out l s) = False"
  unfolding after_loop_def by (cases l) auto

lemma fst_retry_loop:
  "fst (retry_loop cfg cb url out env rem a l s) = fst (retry_loop cfg cb url out env rem a l t)"
proof (induction rem arbitrary: a l s t)
  case 0
  show ?case by (simp add: fst_after_loop)
next
  case (Suc rem)
  obtain c l1 s1 where A: "attempt_body cfg cb url out a (env a) l s = (c, l1, s1)"
    by (cases "attempt_body cfg cb url out a (env a) l s")
  obtain c' l1' t1 where B: "attempt_body cfg cb url out a (env a) l t = (c', l1', t1)"
    by (cases "attempt_body cfg cb url out a (env a) l t")
  have e: "c' = c" "l1' = l1"
    using attempt_body_facts [OF A] attempt_body_facts [OF B] by simp_all
  show ?case
  proof (cases c)
    case (Return b)
    then show ?thesis using A B e by simp
  next
    case Break
    then show ?thesis using A B e by (simp add: fst_after_loop)
  next
    case Continue
    then show ?thesis using A B e Suc.IH [of "Suc a" l1 s1 t1] by simp
  qed
qed

lemma retry_loop_counts:
  "retry_loop cfg cb url out env rem a l s = (ok, s') \<Longrightarrow>
   requests (trace s') \<le> requests (trace s) + rem
   \<and> (\<exists>bs. backoffs (trace s') = backoffs (trace s) @ bs \<and> length bs \<le> (retries - 1) - a)"
proof (induction rem arbitrary: a l s)
  case 0
  then show ?case using after_loop_counts [of cb out l s ok s'] by simp
next
  case (Suc rem)
  obtain c l1 s1 where A: "attempt_body cfg cb url out a (env a) l s = (c, l1, s1)"
    by (cases "attempt_body cfg cb url out a (env a) l s")
  note f = attempt_body_facts [OF A]
  define nb where "nb = new_backoffs a (env a) (try_outcome cfg url (env a))"
  have r1: "requests (trace s1) \<le> requests (trace s) + 1" using f by simp
  have b1: "backoffs (trace s1) = backoffs (trace s) @ nb" using f nb_def by simp
  have n1: "length nb \<le> (if a < retries - 1 then 1 else 0)"
    unfolding nb_def by (rule length_new_backoffs)
  have n2: "length nb \<le> (retries - 1) - a" using n1 by (auto split: if_splits)
  show ?case
  proof (cases c)
    case (Return b)
    then have "s' = s1" using Suc.prems A by simp
    then show ?thesis using r1 b1 n2 by auto
  next
    case Break
    then have "after_loop cb out l1 s1 = (ok, s')" using Suc.prems A by simp
    from after_loop_counts [OF this] show ?thesis using r1 b1 n2 by auto
  next
    case Continue
    then have R: "retry_loop cfg cb url out env rem (Suc a) l1 s1 = (ok, s')" using Suc.prems A by simp
    from Suc.IH [OF R] obtain bs where
      h: "requests (trace s') \<le> requests (trace s1) + rem"
         "backoffs (trace s') = backoffs (trace s1) @ bs" "length bs \<le> (retries - 1) - Suc a"
      by blast
    have "backoffs (trace s') = backoffs (trace s) @ (nb @ bs)" using h(2) b1 by simp
    moreover have "length (nb @ bs) \<le> (retries - 1) - a" using n1 h(3) by (auto split: if_splits)
    ultimately show ?thesis using h(1) r1 by (intro conjI exI [of _ "nb @ bs"]) auto
  qed
qed

lemma try_outcome_transient:
  "try_outcome cfg url env = Inl (RequestException m) \<Longrightarrow> lock_result env \<noteq> LockTimeout"
  unfolding try_outcome_def by (auto split: if_splits)

lemma quiet_extends: "quiet p s t \<Longrightarrow> trace t = trace s @ new_events s t"
  unfolding quiet_def new_events_def by auto

lemma committed_extends: "committed cfg out env s t \<Longrightarrow> trace t = trace s @ new_events s t"
proof -
  assume "committed cfg out env s t"
  then obtain t0 tail where h: "quiet out s t0" "t = emits (Replace (temp_file_path out) out # tail) t0"
    unfolding committed_def by blast
  from h(1) obtain evs where "trace t0 = trace s @ evs" unfolding quiet_def by blast
  then have "trace t = trace s @ (evs @ Replace (temp_file_path out) out # tail)"
    using h(2) by simp
  then show ?thesis unfolding new_events_def by simp
qed

lemma retry_loop_extends:
  "retry_loop cfg cb url out env rem a l s = (ok, s') \<Longrightarrow> trace s' = trace s @ new_events s s'"
  using retry_loop_safe [of cfg cb url out env rem a l s ok s'] quiet_extends committed_extends
  by (cases ok) auto

lemma descargar_archivo_extends:
  "descargar_archivo cfg cb url out ow env s = (ok, s') \<Longrightarrow> trace s' = trace s @ new_events s s'"
  using descargar_archivo_safe [of cfg cb url out ow env s ok s'] quiet_extends committed_extends
  by blast

lemma new_counts:
  assumes "trace s' = trace s @ new_events s s'"
  shows "requests (trace s') = requests (trace s) + requests (new_events s s')"
    and "backoffs (trace s') = backoffs (trace s) @ backoffs (new_events s s')"
proof -
  show "requests (trace s') = requests (trace s) + requests (new_events s s')"
    by (subst assms) simp
  show "backoffs (trace s') = backoffs (trace s) @ backoffs (new_events s s')"
    by (subst assms) simp
qed

lemma retry_loop_transient_quiet:
  assumes "\<forall>i. a \<le> i \<and> i < a + n \<longrightarrow> try_outcome cfg url (env i) = Inl (RequestException (m i))"
    and "n \<le> rem"
  shows "\<exists>l1 s1. retry_loop cfg cb url out env rem a l s
            = retry_loop cfg cb url out env (rem - n) (a + n) l1 s1
         \<and> quiet out s s1
         \<and> requests (trace s1) = requests (trace s) + n
         \<and> backoffs (trace s1) = backoffs (trace s)
              @ map (\<lambda>i. sleep_time i (env i) (m i)) (filter (\<lambda>i. i < retries - 1) [a..<a + n])"
  using assms
proof (induction n arbitrary: a l s rem)
  case 0
  show ?case by (intro exI [of _ l] exI [of _ s]) simp
next
  case (Suc n)
  then obtain rem' where rem: "rem = Suc rem'" "n \<le> rem'" by (cases rem) auto
  have o: "try_outcome cfg url (env a) = Inl (RequestException (m a))" using Suc.prems(1) by simp
  obtain c l1 s1 where A: "attempt_body cfg cb url out a (env a) l s = (c, l1, s1)"
    by (cases "attempt_body cfg cb url out a (env a) l s")
  note f = attempt_body_facts [OF A]
  have c: "c = Continue" using f o by simp
  have q1: "quiet out s s1" using attempt_body_safe [OF A] c by simp
  have r1: "requests (trace s1) = requests (trace s) + 1"
    using f try_outcome_transient [OF o] by simp
  have b1: "backoffs (trace s1) = backoffs (trace s) @ (if a < retries - 1 then [sleep_time a (env a) (m a)] else [])"
    using f o by simp
  have step: "retry_loop cfg cb url out env rem a l s = retry_loop cfg cb url out env rem' (Suc a) l1 s1"
    using A c rem by simp
  have "\<forall>i. Suc a \<le> i \<and> i < Suc a + n \<longrightarrow> try_outcome cfg url (env i) = Inl (RequestException (m i))"
    using Suc.prems(1) by simp
  from Suc.IH [OF this rem(2), of l1 s1] obtain l2 s2 where
    h: "retry_loop cfg cb url out env rem' (Suc a) l1 s1 = retry_loop cfg cb url out env (rem' - n) (Suc a + n) l2 s2"
       "quiet out s1 s2"
       "requests (trace s2) = requests (trace s1) + n"
       "backoffs (trace s2) = backoffs (trace s1)
          @ map (\<lambda>i. sleep_time i (env i) (m i)) (filter (\<lambda>i. i < retries - 1) [Suc a..<Suc a + n])"
    by blast
  have u: "[a..<a + Suc n] = a # [Suc a..<Suc a + n]" by (simp add: upt_conv_Cons)
  have q2: "quiet out s s2" using quiet_trans [OF q1 h(2)] .
  show ?case
    apply (intro exI [of _ l2] exI [of _ s2])
    using step h(1,3,4) q2 r1 b1 rem unfolding u by simp
qed

lemma filter_below: "n \<le> k \<Longrightarrow> filter (\<lambda>i. i < k) [0..<n] = [0..<n]"
  by (induction n) auto

lemma filter_upto_min: "filter (\<lambda>i. i < k) [0..<n] = [0..<min n k]"
proof (cases "n \<le> k")
  case True
  then show ?thesis by (simp add: filter_below min_def)
next
  case False
  then have "[0..<n] = [0..<k] @ [k..<n]" by (metis le_add_diff_inverse nat_le_linear upt_add_eq_append zero_le)
  then show ?thesis using False by (simp add: filter_below min_def filter_empty_conv)
qed

lemma attempt_body_401:
  assumes "lock_result env \<noteq> LockTimeout" "get_result env = GetResponse r" "status_code r = 401"
  shows "attempt_body cfg cb url out a env l s =
     (Break, Some auth_rejected,
      emits (log cb (MsgAttempt (a + 1) retries url) @ (if a > 0 then [SessionClose] else [])
             @ lock_events cb out env
             @ [Request url, LockRelease (lock_file_path out)]
             @ err cb out (MsgException auth_rejected) @ [SessionClose]) s)"
  using assms
  unfolding attempt_body_def try_body_def file_lock_enter_def locked_request_def lock_events_def Let_def
  by (cases "lock_result env") simp_all

lemma fst_descargar_archivo:
  "fst (descargar_archivo cfg cb url out True env s) = fst (descargar_archivo cfg cb url out True env t)"
  unfolding descargar_archivo_def using fst_retry_loop [of cfg cb url out env retries 0 None s t] by simp

lemma fst_descargar_tasks:
  "fst (descargar_tasks cfg cb fenv folder tot urls k acc s)
     = acc @ map (task_path folder) (filter (task_succeeds cfg cb fenv folder) urls)"
proof (induction urls arbitrary: k acc s)
  case Nil
  show ?case by simp
next
  case (Cons t urls)
  obtain url anio estado where t: "t = (url, anio, estado)" by (cases t)
  let ?p = "file_path_of folder anio estado"
  obtain ok s1 where D: "descargar_archivo cfg cb url ?p True (fenv ?p) s = (ok, s1)"
    by (cases "descargar_archivo cfg cb url ?p True (fenv ?p) s")
  have ok: "ok = task_succeeds cfg cb fenv folder t"
    unfolding task_succeeds_def t
    using fst_descargar_archivo [of cfg cb url ?p "fenv ?p" s "\<lparr>files = Map.empty, trace = []\<rparr>"] D
    by simp
  show ?case
    unfolding t using D ok Cons.IH
    by (simp add: Let_def task_path_def t del: emit_emits emits_emits)
qed

lemma sleep_time_bounds:
  assumes "0 \<le> rnd_jitter e" "rnd_jitter e < 1" "0 \<le> rnd_extra e" "rnd_extra e < 1"
  shows "if server_error_text msg
         then retry_delay * 2 ^ a + 5 \<le> sleep_time a e msg \<and> sleep_time a e msg < retry_delay * 2 ^ a + 16
         else retry_delay * 2 ^ a \<le> sleep_time a e msg \<and> sleep_time a e msg < retry_delay * 2 ^ a + 1"
  using assms unfolding sleep_time_def uniform_def by auto

lemma startswith_append [simp]: "startswith (p @ s) p"
  by (induction p) simp_all

lemma str_in_prefix: "str_in p (p @ s)"
proof (cases "p @ s")
  case Nil
  then show ?thesis by simp
next
  case (Cons a list)
  have "startswith (p @ s) p" by simp
  then have "startswith (a # list) p" unfolding Cons .
  then show ?thesis unfolding Cons by simp
qed

lemma show_nat_50x:
  "show_nat 502 = ''502''" "show_nat 503 = ''503''" "show_nat 504 = ''504''"
  by (simp_all add: show_nat.simps digit_char_def)

lemma server_error_50x:
  assumes "status_code r = 502 \<or> status_code r = 503 \<or> status_code r = 504"
    and "raise_for_status url r = Some msg"
  shows "server_error_text msg"
proof -
  from assms(1) show ?thesis
  proof (elim disjE)
    assume c: "status_code r = 502"
    then have "msg = ''502'' @ ('' Server Error: '' @ reason r @ '' for url: '' @ url)"
      using assms(2) unfolding raise_for_status_def by (simp add: show_nat_50x)
    then show ?thesis unfolding server_error_text_def using str_in_prefix [of "''502''"] by simp
  next
    assume c: "status_code r = 503"
    then have "msg = ''503'' @ ('' Server Error: '' @ reason r @ '' for url: '' @ url)"
      using assms(2) unfolding raise_for_status_def by (simp add: show_nat_50x)
    then show ?thesis unfolding server_error_text_def using str_in_prefix [of "''503''"] by simp
  next
    assume c: "status_code r = 504"
    then have "msg = ''504'' @ ('' Server Error: '' @ reason r @ '' for url: '' @ url)"
      using assms(2) unfolding raise_for_status_def by (simp add: show_nat_50x)
    then show ?thesis unfolding server_error_text_def using str_in_prefix [of "''504''"] by simp
  qed
qed

lemma descargar_archivo_counts:
  assumes "descargar_archivo cfg cb url out ow env s = (ok, s')"
  shows "requests (new_events s s') \<le> retries \<and> length (backoffs (new_events s s')) \<le> retries - 1"
proof (cases "files s out \<noteq> None \<and> \<not> ow")
  case True
  then have "s' = emits (log cb (MsgSkipExisting out)) s"
    using assms unfolding descargar_archivo_def by simp
  then show ?thesis unfolding new_events_def by simp
next
  case False
  then have R: "retry_loop cfg cb url out env retries 0 None s = (ok, s')"
    using assms unfolding descargar_archivo_def by (auto split: if_splits)
  note n = new_counts [OF descargar_archivo_extends [OF assms]]
  from retry_loop_counts [OF R] show ?thesis using n by auto
qed

lemma descargar_archivo_transient:
  assumes "descargar_archivo cfg cb url out ow env s = (ok, s')"
    and "files s out = None \<or> ow"
    and "n \<le> retries"
    and "\<forall>i<n. \<forall>t. fst (try_body cfg cb url out i (env i) t) = Inl (RequestException (m i))"
  shows "take (min n (retries - 1)) (backoffs (new_events s s'))
           = map (\<lambda>i. sleep_time i (env i) (m i)) [0..<min n (retries - 1)]"
    and "n \<le> requests (new_events s s')"
    and "n = retries \<longrightarrow> \<not> ok
           \<and> backoffs (new_events s s') = map (\<lambda>i. sleep_time i (env i) (m i)) [0..<retries - 1]
           \<and> requests (new_events s s') = retries"
proof -
  have R: "retry_loop cfg cb url out env retries 0 None s = (ok, s')"
    using assms(1,2) unfolding descargar_archivo_def by (auto split: if_splits)
  note nc = new_counts [OF descargar_archivo_extends [OF assms(1)]]
  have "\<forall>i. 0 \<le> i \<and> i < 0 + n \<longrightarrow> try_outcome cfg url (env i) = Inl (RequestException (m i))"
    using assms(4) fst_try_body by simp
  from retry_loop_transient_quiet [OF this assms(3), of cb out None s] obtain l1 s1 where
    h: "retry_loop cfg cb url out env retries 0 None s = retry_loop cfg cb url out env (retries - n) n l1 s1"
       "requests (trace s1) = requests (trace s) + n"
       "backoffs (trace s1) = backoffs (trace s)
          @ map (\<lambda>i. sleep_time i (env i) (m i)) (filter (\<lambda>i. i < retries - 1) [0..<n])"
    by auto
  have R2: "retry_loop cfg cb url out env (retries - n) n l1 s1 = (ok, s')" using R h(1) by simp
  note e2 = new_counts [OF retry_loop_extends [OF R2]]
  let ?pre = "map (\<lambda>i. sleep_time i (env i) (m i)) [0..<min n (retries - 1)]"
  have b: "backoffs (new_events s s') = ?pre @ backoffs (new_events s1 s')"
    using nc(2) e2(2) h(3) by (simp add: filter_upto_min)
  have r: "requests (new_events s s') = n + requests (new_events s1 s')"
    using nc(1) e2(1) h(2) by simp
  show "take (min n (retries - 1)) (backoffs (new_events s s')) = ?pre"
    unfolding b by simp
  show "n \<le> requests (new_events s s')" using r by simp
  show "n = retries \<longrightarrow> \<not> ok
           \<and> backoffs (new_events s s') = map (\<lambda>i. sleep_time i (env i) (m i)) [0..<retries - 1]
           \<and> requests (new_events s s') = retries"
  proof
    assume n: "n = retries"
    then have A: "after_loop cb out l1 s1 = (ok, s')" using R2 by simp
    from after_loop_counts [OF A] have "\<not> ok" "requests (new_events s1 s') = 0" "backoffs (new_events s1 s') = []"
      using e2 by simp_all
    then show "\<not> ok
           \<and> backoffs (new_events s s') = map (\<lambda>i. sleep_time i (env i) (m i)) [0..<retries - 1]
           \<and> requests (new_events s s') = retries"
      using b r n by simp
  qed
qed

lemma new_events_emits:
  assumes "trace t = trace s @ new_events s t"
  shows "new_events s (emits evs t) = new_events s t @ evs"
proof -
  have "trace (emits evs t) = trace s @ (new_events s t @ evs)" using assms by simp
  then show ?thesis unfolding new_events_def [of s "emits evs t"] by simp
qed


lemma retry_loop_progress:
  "retry_loop cfg cb url out env rem a l s = (ok, s') \<Longrightarrow>
   progress_values (trace s') = progress_values (trace s)"
proof (induction rem arbitrary: a l s)
  case 0
  then show ?case using after_loop_counts [of cb out l s ok s'] by simp
next
  case (Suc rem)
  obtain c l1 s1 where A: "attempt_body cfg cb url out a (env a) l s = (c, l1, s1)"
    by (cases "attempt_body cfg cb url out a (env a) l s")
  have p1: "progress_values (trace s1) = progress_values (trace s)"
    using attempt_body_facts [OF A] by simp
  show ?case
  proof (cases c)
    case (Return b)
    then have "s' = s1" using Suc.prems A by simp
    then show ?thesis using p1 by simp
  next
    case Break
    then have "after_loop cb out l1 s1 = (ok, s')" using Suc.prems A by simp
    from after_loop_counts [OF this] show ?thesis using p1 by simp
  next
    case Continue
    then have "retry_loop cfg cb url out env rem (Suc a) l1 s1 = (ok, s')" using Suc.prems A by simp
    from Suc.IH [OF this] show ?thesis using p1 by simp
  qed
qed

lemma descargar_archivo_progress:
  assumes "descargar_archivo cfg cb url out ow env s = (ok, s')"
  shows "progress_values (trace s') = progress_values (trace s)"
proof (cases "files s out \<noteq> None \<and> \<not> ow")
  case True
  then have "s' = emits (log cb (MsgSkipExisting out)) s"
    using assms unfolding descargar_archivo_def by simp
  then show ?thesis by simp
next
  case False
  then have "retry_loop cfg cb url out env retries 0 None s = (ok, s')"
    using assms unfolding descargar_archivo_def by (auto split: if_splits)
  from retry_loop_progress [OF this] show ?thesis .
qed

section \<open>The consolidator: auxiliary facts\<close>

lemma not_output_cb [simp]:
  "list_all (\<lambda>e. \<not> is_output e) (log cb m)"
  "list_all (\<lambda>e. \<not> is_output e) (err cb c m)"
  "list_all (\<lambda>e. \<not> is_output e) (progress cb q)"
  by (simp_all add: log_def err_def progress_def)

lemma consolidar_loop_frames:
  "fst (consolidar_loop cb rd b w t i fs (dfs, tr)) =
     dfs @ map (retained_rows rd) (filter (\<lambda>f. is_frame (rd f)) fs)"
  by (induction fs arbitrary: i dfs tr)
     (simp_all add: retained_rows_def is_frame_def split: parse_result.splits)

lemma consolidar_loop_quiet:
  "list_all (\<lambda>e. \<not> is_output e) tr \<Longrightarrow>
   list_all (\<lambda>e. \<not> is_output e) (snd (consolidar_loop cb rd b w t i fs (dfs, tr)))"
  by (induction fs arbitrary: i dfs tr) (simp_all split: parse_result.splits)

lemma concat_retained:
  "concat (map (retained_rows rd) (filter (\<lambda>f. is_frame (rd f)) fs)) = concat (map (retained_rows rd) fs)"
  by (induction fs) (auto simp: retained_rows_def is_frame_def split: parse_result.splits)

lemma consolidar_written:
  assumes "WriteCsv p rows \<in> set (consolidar_archivos_descargados cb rd wr folder out fs b w)"
  shows "p = out \<and> rows = concat (map (retained_rows rd) fs)"
proof -
  obtain dfs tr where L: "consolidar_loop cb rd b w (length fs) 0 fs ([], []) = (dfs, tr)"
    by (cases "consolidar_loop cb rd b w (length fs) 0 fs ([], [])")
  have q: "list_all (\<lambda>e. \<not> is_output e) tr"
    using consolidar_loop_quiet [of "[]" cb rd b w "length fs" 0 fs "[]"] L by simp
  have d: "dfs = map (retained_rows rd) (filter (\<lambda>f. is_frame (rd f)) fs)"
    using consolidar_loop_frames [of cb rd b w "length fs" 0 fs "[]" "[]"] L by simp
  have nt: "WriteCsv p rows \<notin> set tr"
    using q by (auto simp: list_all_iff)
  from assms nt show ?thesis
    unfolding consolidar_archivos_descargados_def L
    by (auto simp: d concat_retained log_def err_def split: if_splits write_result.splits)
qed

text \<open>
  The filter and the tag written out, and \<^verbatim>\<open>os.path.basename\<close> characterised: the
  base name is what follows the last separator of the path.
\<close>

lemma startswith_take: "startswith s p = (take (length p) s = p)"
  by (induction s p rule: startswith.induct) auto

lemma keep_LM_filter:
  "keep_LM rows = filter (\<lambda>r. take 2 (NumeroTramite r) = ''LM'') rows"
proof -
  have "startswith s ''LM'' = (take 2 s = ''LM'')" for s
    using startswith_take [of s "''LM''"] by (simp add: numeral_2_eq_2)
  then show ?thesis by (simp add: keep_LM_def)
qed

lemma retained_rows_explicit:
  "retained_rows rd f =
     (case rd f of
        Frame rs \<Rightarrow>
          map (\<lambda>r. \<lparr>NumeroTramite = NumeroTramite r, cells = cells r,
                     ARCHIVO_ORIGEN = basename f\<rparr>)
            (filter (\<lambda>r. take 2 (NumeroTramite r) = ''LM'') rs)
      | _ \<Rightarrow> [])"
  by (simp add: retained_rows_def keep_LM_filter tag_origin_def split: parse_result.splits)

lemma basename_no_sep:
  "c \<in> set (basename p) \<Longrightarrow> c \<noteq> CHR ''/'' \<and> c \<noteq> CHR 0x5C"
  unfolding basename_def set_rev
  by (auto dest!: set_takeWhileD simp: is_sep_def backslash_def)

lemma basename_suffix:
  "\<exists>d. p = d @ basename p \<and> (d = [] \<or> last d = CHR ''/'' \<or> last d = CHR 0x5C)"
proof -
  let ?P = "\<lambda>c. \<not> is_sep c"
  let ?d = "rev (dropWhile ?P (rev p))"
  have "rev (takeWhile ?P (rev p) @ dropWhile ?P (rev p)) = p"
    by (simp only: takeWhile_dropWhile_id rev_rev_ident)
  then have "?d @ rev (takeWhile ?P (rev p)) = p"
    by (simp only: rev_append)
  then have 1: "p = ?d @ basename p" by (simp only: basename_def)
  have 2: "?d = [] \<or> last ?d = CHR ''/'' \<or> last ?d = CHR 0x5C"
  proof (cases "dropWhile ?P (rev p) = []")
    case True
    then show ?thesis by simp
  next
    case False
    then have "is_sep (hd (dropWhile ?P (rev p)))"
      using hd_dropWhile [of ?P "rev p"] by simp
    then show ?thesis using False by (simp add: last_rev is_sep_def backslash_def)
  qed
  from 1 2 show ?thesis by blast
qed

lemma basename_nonempty:
  "p \<noteq> [] \<Longrightarrow> last p \<noteq> CHR ''/'' \<Longrightarrow> last p \<noteq> CHR 0x5C \<Longrightarrow> basename p \<noteq> []"
  by (simp add: basename_def takeWhile_eq_Nil_iff hd_rev is_sep_def backslash_def)



section \<open>The batch entry point: auxiliary facts\<close>

lemma generar_urls_eq:
  "generar_urls_por_partes
     = [(58, urls_de_tipo 58), (57, urls_de_tipo 57), (317, urls_de_tipo 317), (55, urls_de_tipo 55)]"
  by (simp add: generar_urls_por_partes_def)

lemma crear_carpetas_ok:
  assumes "\<forall>p. makedirs_raises w p = None"
  shows "crear_carpetas w s
     = (Inr [(58, carpeta w ''CCM''), (57, carpeta w ''PRR'')],
        emits [Makedirs (carpeta w ''CCM''), Makedirs (carpeta w ''PRR'')] s)"
  using assms by (simp add: crear_carpetas_def tipos_tramite_def carpeta_def Let_def)


lemma download_loop_step:
  assumes "map_of folders tipo = Some output_folder"
  shows "\<exists>dbt' s'. download_loop cfg cb w download_option folders ((tipo, urls) # rest) dbt s
           = download_loop cfg cb w download_option folders rest dbt' s'"
proof -
  let ?s1 = "emits (log cb (MsgProcessingType tipo)) s"
  show ?thesis
  proof (cases "download_option = ''missing''")
    case True
    let ?u = "filter (\<lambda>(url, anio, estado). files ?s1 (file_path_of output_folder anio estado) = None) urls"
    show ?thesis
    proof (cases "?u = []")
      case e: True
      show ?thesis
        using assms True e by (simp add: Let_def) blast
    next
      case ne: False
      obtain d s2 where D: "descargar_en_paralelo cfg cb (fetch_env w) tipo ?u output_folder
              (emits (log cb (MsgDownloadingMissing (length ?u))) ?s1) = (d, s2)"
        by (cases "descargar_en_paralelo cfg cb (fetch_env w) tipo ?u output_folder
              (emits (log cb (MsgDownloadingMissing (length ?u))) ?s1)")
      show ?thesis
        using assms True ne D by (simp add: Let_def del: emits_emits) blast
    qed
  next
    case False
    obtain d s2 where D: "descargar_en_paralelo cfg cb (fetch_env w) tipo urls output_folder
              (emits (log cb MsgDownloadingAll) ?s1) = (d, s2)"
      by (cases "descargar_en_paralelo cfg cb (fetch_env w) tipo urls output_folder
              (emits (log cb MsgDownloadingAll) ?s1)")
    show ?thesis
      using assms False D by (simp add: Let_def del: emits_emits) blast
  qed
qed

lemma download_loop_KeyError:
  assumes "map_of folders tipo = None"
  shows "fst (download_loop cfg cb w download_option folders ((tipo, urls) # rest) dbt s)
           = Inl (KeyError_tipo tipo)"
  using assms by (simp add: Let_def)

lemma download_loop_ok:
  assumes "\<forall>t\<in>set ups. map_of folders (fst t) \<noteq> None"
  shows "\<exists>dbt' s'. download_loop cfg cb w download_option folders ups dbt s = (Inr dbt', s')"
  using assms
proof (induction ups arbitrary: dbt s)
  case Nil
  show ?case by simp
next
  case (Cons t ups)
  obtain tipo urls where t: "t = (tipo, urls)" by (cases t)
  from Cons.prems t obtain f where f: "map_of folders tipo = Some f" by auto
  from download_loop_step [OF f, of cfg cb w download_option urls ups dbt s] obtain dbt' s' where
    "download_loop cfg cb w download_option folders ((tipo, urls) # ups) dbt s
           = download_loop cfg cb w download_option folders ups dbt' s'" by blast
  then show ?case using Cons.IH [of dbt' s'] Cons.prems t by simp
qed

lemma procesar_ok:
  assumes "download_option = ''consolidate'' \<or> (\<forall>t\<in>set ups. map_of folders (fst t) \<noteq> None)"
  shows "fst (procesar cfg cb w download_option folders ups s) = Inr (Some True)"
proof (cases "download_option = ''consolidate''")
  case True
  then show ?thesis by (simp add: procesar_def)
next
  case False
  then have "\<forall>t\<in>set ups. map_of folders (fst t) \<noteq> None" using assms by simp
  from download_loop_ok [OF this, of cfg cb w download_option "[]" "emits (log cb MsgStartDownload) s"]
  obtain dbt' s' where "download_loop cfg cb w download_option folders ups []
      (emits (log cb MsgStartDownload) s) = (Inr dbt', s')" by blast
  then show ?thesis using False by (simp add: procesar_def)
qed

lemma procesar_unfiltered:
  assumes "download_option \<noteq> ''consolidate''"
  shows "fst (procesar cfg cb w download_option [(58, f1), (57, f2)] generar_urls_por_partes s)
           = Inl (KeyError_tipo 317)"
proof -
  let ?fo = "[(58::nat, f1), (57, f2)]"
  let ?s0 = "emits (log cb MsgStartDownload) s"
  have a: "map_of ?fo 58 = Some f1" "map_of ?fo 57 = Some f2" "map_of ?fo 317 = None" by simp_all
  from download_loop_step [OF a(1), of cfg cb w download_option "urls_de_tipo 58"
      "[(57, urls_de_tipo 57), (317, urls_de_tipo 317), (55, urls_de_tipo 55)]" "[]" ?s0]
  obtain d1 s1 where 1: "download_loop cfg cb w download_option ?fo generar_urls_por_partes [] ?s0
      = download_loop cfg cb w download_option ?fo
          [(57, urls_de_tipo 57), (317, urls_de_tipo 317), (55, urls_de_tipo 55)] d1 s1"
    unfolding generar_urls_eq by blast
  from download_loop_step [OF a(2), of cfg cb w download_option "urls_de_tipo 57"
      "[(317, urls_de_tipo 317), (55, urls_de_tipo 55)]" d1 s1]
  obtain d2 s2 where 2: "download_loop cfg cb w download_option ?fo
          [(57, urls_de_tipo 57), (317, urls_de_tipo 317), (55, urls_de_tipo 55)] d1 s1
      = download_loop cfg cb w download_option ?fo
          [(317, urls_de_tipo 317), (55, urls_de_tipo 55)] d2 s2"
    by blast
  have 3: "fst (download_loop cfg cb w download_option ?fo
          [(317, urls_de_tipo 317), (55, urls_de_tipo 55)] d2 s2) = Inl (KeyError_tipo 317)"
    using download_loop_KeyError [OF a(3)] .
  have "fst (download_loop cfg cb w download_option ?fo generar_urls_por_partes [] ?s0)
      = Inl (KeyError_tipo 317)"
    using 1 2 3 by simp
  then show ?thesis
    using assms unfolding procesar_def
    by (cases "download_loop cfg cb w download_option ?fo generar_urls_por_partes [] ?s0") auto
qed

lemma selected_ids_range:
  "selected_ids d = Inr ids \<Longrightarrow> set ids \<subseteq> {58, 57}"
proof (induction d arbitrary: ids)
  case Nil
  then show ?case by simp
next
  case (Cons x d)
  obtain name selected where x: "x = (name, selected)" by (cases x)
  show ?case
  proof (cases selected)
    case False
    then show ?thesis using Cons x by simp
  next
    case True
    then obtain i ids' where h: "map_of module_name_to_id name = Some i" "selected_ids d = Inr ids'"
      "ids = i # ids'"
      using Cons.prems x by (auto split: option.splits sum.splits)
    have "i = 58 \<or> i = 57" using h(1) by (auto simp: module_name_to_id_def split: if_splits)
    then show ?thesis using Cons.IH [OF h(2)] h(3) by auto
  qed
qed

lemma selected_ids_total:
  assumes "\<forall>x\<in>set d. snd x \<longrightarrow> fst x = ''CCM'' \<or> fst x = ''PRR''"
  shows "\<exists>ids. selected_ids d = Inr ids \<and> (ids = [] \<longleftrightarrow> \<not> (\<exists>x\<in>set d. snd x))"
  using assms
proof (induction d)
  case Nil
  show ?case by simp
next
  case (Cons x d)
  obtain name selected where x: "x = (name, selected)" by (cases x)
  from Cons obtain ids where ids: "selected_ids d = Inr ids" "ids = [] \<longleftrightarrow> \<not> (\<exists>x\<in>set d. snd x)"
    by auto
  show ?case
  proof (cases selected)
    case False
    then show ?thesis using ids x by simp
  next
    case True
    then have "name = ''CCM'' \<or> name = ''PRR''" using Cons.prems x by simp
    then obtain i where "map_of module_name_to_id name = Some i"
      by (auto simp: module_name_to_id_def)
    then show ?thesis using ids x True by simp
  qed
qed

lemma folder_present:
  fixes f1 f2 :: string
  assumes "k \<in> set ids" "set ids \<subseteq> {58, 57}"
  shows "map_of (filter (\<lambda>(k, v). k \<in> set ids) [(58::nat, f1), (57, f2)]) k \<noteq> None"
  using assms by auto

lemma descargar_y_consolidar_selected:
  assumes "selected_modules = Some d" "d \<noteq> []"
    and "\<forall>x\<in>set d. snd x \<longrightarrow> fst x = ''CCM'' \<or> fst x = ''PRR''"
    and "\<forall>p. makedirs_raises w p = None"
  shows "fst (descargar_y_consolidar cfg cb w download_option overwrite selected_modules s)
           = (if \<exists>x\<in>set d. snd x then Inr (Some True) else Inr None)"
proof -
  from selected_ids_total [OF assms(3)] obtain ids where
    ids: "selected_ids d = Inr ids" "ids = [] \<longleftrightarrow> \<not> (\<exists>x\<in>set d. snd x)" by blast
  note rg = selected_ids_range [OF ids(1)]
  have tr: "truthy selected_modules" using assms(1,2) by (simp add: truthy_def)
  let ?all = "[(58::nat, carpeta w ''CCM''), (57, carpeta w ''PRR'')]"
  let ?fo = "filter (\<lambda>(k, v). k \<in> set ids) ?all"
  let ?ups = "filter (\<lambda>(k, v). k \<in> set ids) generar_urls_por_partes"
  show ?thesis
  proof (cases "\<exists>x\<in>set d. snd x")
    case False
    then have "ids = []" using ids(2) by simp
    then show ?thesis
      using False tr ids(1) assms(1)
      unfolding descargar_y_consolidar_def crear_carpetas_ok [OF assms(4)]
      by (simp add: Let_def)
  next
    case True
    then have ne: "ids \<noteq> []" using ids(2) by simp
    then obtain i where i: "i \<in> set ids" by (cases ids) auto
    then have "i = 58 \<or> i = 57" using rg by auto
    then have fne: "?fo \<noteq> []" using i by (auto simp: filter_empty_conv)
    have "\<forall>t\<in>set ?ups. map_of ?fo (fst t) \<noteq> None"
    proof
      fix t assume "t \<in> set ?ups"
      then have "fst t \<in> set ids" by auto
      from folder_present [OF this rg] show "map_of ?fo (fst t) \<noteq> None" .
    qed
    then have P: "fst (procesar cfg cb w download_option ?fo ?ups s') = Inr (Some True)" for s'
      using procesar_ok [of download_option ?ups ?fo cfg cb w s'] by blast
    show ?thesis
      using True tr ids(1) assms(1) fne P
      unfolding descargar_y_consolidar_def crear_carpetas_ok [OF assms(4)]
      by (simp add: Let_def del: emits_emits filter.simps)
  qed
qed

lemma descargar_y_consolidar_unfiltered:
  assumes "\<not> truthy selected_modules" "download_option \<noteq> ''consolidate''"
    and "\<forall>p. makedirs_raises w p = None"
  shows "fst (descargar_y_consolidar cfg cb w download_option overwrite selected_modules s)
           = Inl (KeyError_tipo 317)"
  using assms(1) procesar_unfiltered [OF assms(2)]
  unfolding descargar_y_consolidar_def crear_carpetas_ok [OF assms(3)]
  by (simp add: Let_def del: emits_emits)




section \<open>Progress reports: auxiliary facts\<close>

lemma progress_values_progress [simp]:
  "progress_values (progress cb q) = (if progress_callback cb then [q] else [])"
  by (simp add: progress_def)

lemma descargar_tasks_progress:
  "progress_values (trace (snd (descargar_tasks cfg cb fenv folder tot urls k acc s)))
     = progress_values (trace s)
       @ (if progress_callback cb
          then map (\<lambda>j. of_nat j / of_nat tot * 80) [Suc k..<Suc (k + length urls)] else [])"
proof (induction urls arbitrary: k acc s)
  case Nil
  show ?case by simp
next
  case (Cons t urls)
  obtain url anio estado where t: "t = (url, anio, estado)" by (cases t)
  let ?p = "file_path_of folder anio estado"
  let ?f = "\<lambda>j. of_nat j / of_nat tot * (80::rat)"
  obtain ok s1 where D: "descargar_archivo cfg cb url ?p True (fenv ?p) s = (ok, s1)"
    by (cases "descargar_archivo cfg cb url ?p True (fenv ?p) s")
  note p1 = descargar_archivo_progress [OF D]
  define s2 where "s2 = emits (progress cb (?f (k + 1))) s1"
  define acc' where "acc' = (if ok then acc @ [?p] else acc)"
  have step: "descargar_tasks cfg cb fenv folder tot (t # urls) k acc s
      = descargar_tasks cfg cb fenv folder tot urls (k + 1) acc' s2"
    unfolding t s2_def acc'_def using D by (simp add: Let_def del: emits_emits)
  have p2: "progress_values (trace s2)
      = progress_values (trace s) @ (if progress_callback cb then [?f (Suc k)] else [])"
    unfolding s2_def using p1 by simp
  have u: "[Suc k..<Suc (k + length (t # urls))] = Suc k # [Suc (k + 1)..<Suc (k + 1 + length urls)]"
    by (simp add: upt_conv_Cons del: upt_Suc)
  show ?case
    unfolding step Cons.IH [of "k + 1" acc' s2] p2 u by simp
qed

lemma descargar_en_paralelo_progress:
  "progress_values (trace (snd (descargar_en_paralelo cfg cb fenv tipo urls folder s)))
     = progress_values (trace s)
       @ (if progress_callback cb then download_progress (length urls) else [])"
  unfolding descargar_en_paralelo_def download_progress_def
  using descargar_tasks_progress [of cfg cb fenv folder "length urls" urls 0 "[]" s]
  by simp

lemma download_progress_range:
  assumes "p \<in> set (download_progress n)"
  shows "0 < p \<and> p \<le> 80"
proof -
  from assms obtain j where j: "1 \<le> j" "j \<le> n" "p = of_nat j / of_nat n * 80"
    unfolding download_progress_def by auto
  define q :: rat where "q = of_nat j / of_nat n"
  have n: "(0::rat) < of_nat n" using j by simp
  have "q \<le> 1" unfolding q_def using j n by (simp add: divide_le_eq_1)
  moreover have "0 < q" unfolding q_def using j n by simp
  moreover have "p = q * 80" unfolding q_def using j(3) by simp
  ultimately show ?thesis by simp
qed

lemma download_progress_sorted: "sorted (download_progress n)"
proof -
  have "sorted_wrt (\<lambda>x y. (of_nat x :: rat) / of_nat n * 80 \<le> of_nat y / of_nat n * 80) [1..<Suc n]"
  proof (rule sorted_wrt_mono_rel [OF _ sorted_upt])
    fix x y :: nat
    assume "x \<le> y"
    then show "(of_nat x :: rat) / of_nat n * 80 \<le> of_nat y / of_nat n * 80"
      by (simp add: divide_right_mono)
  qed
  then show ?thesis unfolding download_progress_def by (simp only: sorted_map)
qed

lemma consolidar_loop_progress:
  assumes "0 \<le> w"
  shows "\<exists>ps. progress_values (snd (consolidar_loop cb rd b w tot i fs (dfs, tr)))
             = progress_values tr @ ps
          \<and> sorted ps
          \<and> (\<forall>p\<in>set ps. b + of_nat (Suc i) / of_nat tot * w \<le> p
                \<and> p \<le> b + of_nat (i + length fs) / of_nat tot * w)"
proof (induction fs arbitrary: i dfs tr)
  case Nil
  show ?case by (rule exI [of _ "[]"]) simp
next
  case (Cons f fs)
  let ?p0 = "b + of_nat (Suc i) / of_nat tot * w"
  have mono: "b + of_nat x / of_nat tot * w \<le> b + of_nat y / of_nat tot * w" if "x \<le> y" for x y :: nat
    using that assms by (simp add: divide_right_mono mult_right_mono)
  obtain dfs' tr' where step: "consolidar_loop cb rd b w tot i (f # fs) (dfs, tr)
      = consolidar_loop cb rd b w tot (Suc i) fs (dfs', tr')"
    and pv: "progress_values tr' = progress_values tr
               @ (if is_frame (rd f) \<and> progress_callback cb then [?p0] else [])"
    by (cases "rd f") (auto simp: is_frame_def)
  from Cons.IH [of "Suc i" dfs' tr'] obtain ps where
    ps: "progress_values (snd (consolidar_loop cb rd b w tot (Suc i) fs (dfs', tr')))
             = progress_values tr' @ ps" "sorted ps"
        "\<forall>p\<in>set ps. b + of_nat (Suc (Suc i)) / of_nat tot * w \<le> p
                \<and> p \<le> b + of_nat (Suc i + length fs) / of_nat tot * w"
    by blast
  let ?q = "(if is_frame (rd f) \<and> progress_callback cb then [?p0] else []) @ ps"
  have le: "\<forall>p\<in>set ps. ?p0 \<le> p"
    using ps(3) mono [of "Suc i" "Suc (Suc i)"] by fastforce
  have up: "?p0 \<le> b + of_nat (i + length (f # fs)) / of_nat tot * w"
    using mono [of "Suc i" "i + length (f # fs)"] by simp
  have 1: "progress_values (snd (consolidar_loop cb rd b w tot i (f # fs) (dfs, tr)))
             = progress_values tr @ ?q"
    unfolding step ps(1) pv by simp
  have 2: "sorted ?q" using ps(2) le by simp
  have 3: "\<forall>p\<in>set ?q. ?p0 \<le> p \<and> p \<le> b + of_nat (i + length (f # fs)) / of_nat tot * w"
    using le up ps(3) by auto
  show ?case using 1 2 3 by blast
qed

lemma consolidar_progress:
  assumes "0 < w"
  shows "\<exists>ps. progress_values (consolidar_archivos_descargados cb rd wr folder out fs b w) = ps
          \<and> sorted ps \<and> (\<forall>p\<in>set ps. b < p \<and> p \<le> b + w)"
proof (cases "fs = []")
  case True
  then show ?thesis by (simp add: consolidar_archivos_descargados_def)
next
  case False
  obtain dfs tr where L: "consolidar_loop cb rd b w (length fs) 0 fs ([], []) = (dfs, tr)"
    by (cases "consolidar_loop cb rd b w (length fs) 0 fs ([], [])")
  from consolidar_loop_progress [of w cb rd b "length fs" 0 fs "[]" "[]"] assms L obtain ps where
    ps: "progress_values tr = ps" "sorted ps"
        "\<forall>p\<in>set ps. b + of_nat (Suc 0) / of_nat (length fs) * w \<le> p
                \<and> p \<le> b + of_nat (0 + length fs) / of_nat (length fs) * w"
    by auto
  have n: "(0::rat) < of_nat (length fs)" using False by simp
  have lo: "b < b + of_nat (Suc 0) / of_nat (length fs) * w" using n assms by simp
  have hi: "b + of_nat (0 + length fs) / of_nat (length fs) * w = b + w" using n by simp
  have r: "\<forall>p\<in>set ps. b < p \<and> p \<le> b + w" using ps(3) lo hi by fastforce
  have "progress_values (consolidar_archivos_descargados cb rd wr folder out fs b w) = ps"
    unfolding consolidar_archivos_descargados_def L using False ps(1)
    by (simp split: write_result.splits)
  then show ?thesis using ps(2) r by blast
qed

lemma remove_stale_lock_files_progress:
  "progress_values (trace (remove_stale_lock_files cb max_age scan s)) = progress_values (trace s)"
proof (induction scan arbitrary: s)
  case Nil
  show ?case by simp
next
  case (Cons x scan)
  obtain p age rm where x: "x = (p, age, rm)" by (cases x)
  show ?case unfolding x by (simp add: Cons.IH del: emits_emits)
qed

lemma download_progress_0 [simp]: "download_progress 0 = []"
  by (simp add: download_progress_def)

lemma download_loop_step_progress:
  assumes "map_of folders tipo = Some output_folder"
  shows "\<exists>dbt' s' n. download_loop cfg cb w download_option folders ((tipo, urls) # rest) dbt s
           = download_loop cfg cb w download_option folders rest dbt' s'
         \<and> progress_values (trace s') = progress_values (trace s) @ cb_progress cb n
         \<and> (download_option \<noteq> ''missing'' \<longrightarrow> n = length urls)"
proof -
  let ?s1 = "emits (log cb (MsgProcessingType tipo)) s"
  show ?thesis
  proof (cases "download_option = ''missing''")
    case True
    let ?u = "filter (\<lambda>(url, anio, estado). files ?s1 (file_path_of output_folder anio estado) = None) urls"
    show ?thesis
    proof (cases "?u = []")
      case e: True
      have "download_loop cfg cb w download_option folders ((tipo, urls) # rest) dbt s
           = download_loop cfg cb w download_option folders rest (dbt @ [(tipo, [])])
               (emits (log cb MsgNothingMissing) ?s1)"
        using assms True e by (simp add: Let_def del: emits_emits)
      moreover have "progress_values (trace (emits (log cb MsgNothingMissing) ?s1))
           = progress_values (trace s) @ cb_progress cb 0"
        by (simp add: cb_progress_def)
      ultimately show ?thesis using True by blast
    next
      case ne: False
      let ?s2 = "emits (log cb (MsgDownloadingMissing (length ?u))) ?s1"
      obtain d s3 where D: "descargar_en_paralelo cfg cb (fetch_env w) tipo ?u output_folder ?s2 = (d, s3)"
        by (cases "descargar_en_paralelo cfg cb (fetch_env w) tipo ?u output_folder ?s2")
      have "download_loop cfg cb w download_option folders ((tipo, urls) # rest) dbt s
           = download_loop cfg cb w download_option folders rest (dbt @ [(tipo, d)]) s3"
        using assms True ne D by (simp add: Let_def del: emits_emits)
      moreover have "progress_values (trace s3) = progress_values (trace s) @ cb_progress cb (length ?u)"
        using descargar_en_paralelo_progress [of cfg cb "fetch_env w" tipo ?u output_folder ?s2] D
        by (simp add: cb_progress_def)
      ultimately show ?thesis using True by blast
    qed
  next
    case False
    let ?s2 = "emits (log cb MsgDownloadingAll) ?s1"
    obtain d s3 where D: "descargar_en_paralelo cfg cb (fetch_env w) tipo urls output_folder ?s2 = (d, s3)"
      by (cases "descargar_en_paralelo cfg cb (fetch_env w) tipo urls output_folder ?s2")
    have "download_loop cfg cb w download_option folders ((tipo, urls) # rest) dbt s
           = download_loop cfg cb w download_option folders rest (dbt @ [(tipo, d)]) s3"
      using assms False D by (simp add: Let_def del: emits_emits)
    moreover have "progress_values (trace s3) = progress_values (trace s) @ cb_progress cb (length urls)"
      using descargar_en_paralelo_progress [of cfg cb "fetch_env w" tipo urls output_folder ?s2] D
      by (simp add: cb_progress_def)
    ultimately show ?thesis by blast
  qed
qed

lemma download_loop_progress:
  assumes "\<forall>t\<in>set ups. map_of folders (fst t) \<noteq> None"
  shows "\<exists>dbt' s' ns. download_loop cfg cb w download_option folders ups dbt s = (Inr dbt', s')
         \<and> progress_values (trace s') = progress_values (trace s) @ concat (map (cb_progress cb) ns)
         \<and> length ns = length ups
         \<and> (download_option \<noteq> ''missing'' \<longrightarrow> ns = map (\<lambda>t. length (snd t)) ups)"
  using assms
proof (induction ups arbitrary: dbt s)
  case Nil
  show ?case by (rule exI [of _ dbt], rule exI [of _ s], rule exI [of _ "[]"]) simp
next
  case (Cons t ups)
  obtain tipo urls where t: "t = (tipo, urls)" by (cases t)
  from Cons.prems t obtain f where f: "map_of folders tipo = Some f" by auto
  from download_loop_step_progress [OF f, of cfg cb w download_option urls ups dbt s]
  obtain dbt1 s1 n where 1:
    "download_loop cfg cb w download_option folders ((tipo, urls) # ups) dbt s
           = download_loop cfg cb w download_option folders ups dbt1 s1"
    "progress_values (trace s1) = progress_values (trace s) @ cb_progress cb n"
    "download_option \<noteq> ''missing'' \<longrightarrow> n = length urls"
    by blast
  have "\<forall>t\<in>set ups. map_of folders (fst t) \<noteq> None" using Cons.prems by simp
  from Cons.IH [OF this, of dbt1 s1] obtain dbt2 s2 ns where 2:
    "download_loop cfg cb w download_option folders ups dbt1 s1 = (Inr dbt2, s2)"
    "progress_values (trace s2) = progress_values (trace s1) @ concat (map (cb_progress cb) ns)"
    "length ns = length ups"
    "download_option \<noteq> ''missing'' \<longrightarrow> ns = map (\<lambda>t. length (snd t)) ups"
    by blast
  show ?case
    apply (rule exI [of _ dbt2], rule exI [of _ s2], rule exI [of _ "n # ns"])
    using 1 2 t by simp
qed

lemma consolidar_descargas_progress:
  "\<exists>Cs. progress_values (trace (consolidar_descargas cb w dbt folders s))
           = progress_values (trace s) @ concat Cs
        \<and> length Cs = length folders
        \<and> (\<forall>C\<in>set Cs. sorted C \<and> (\<forall>p\<in>set C. 80 < p \<and> p \<le> 100))"
proof (induction folders arbitrary: s)
  case Nil
  show ?case by (rule exI [of _ "[]"]) simp
next
  case (Cons x folders)
  obtain tipo folder where x: "x = (tipo, folder)" by (cases x)
  let ?fs = "case map_of dbt tipo of None \<Rightarrow> [] | Some fs \<Rightarrow> fs"
  let ?T = "consolidar_archivos_descargados cb (read_csv w) (to_csv w (output_file_of folder))
              folder (output_file_of folder) ?fs 80 20"
  let ?s1 = "emits (log cb (MsgConsolidating (basename folder)) @ ?T) s"
  from consolidar_progress [of 20 cb "read_csv w" "to_csv w (output_file_of folder)" folder
      "output_file_of folder" ?fs 80]
  obtain C where C: "progress_values ?T = C" "sorted C" "\<forall>p\<in>set C. 80 < p \<and> p \<le> 100"
    by auto
  from Cons [of ?s1] obtain Cs where Cs:
    "progress_values (trace (consolidar_descargas cb w dbt folders ?s1))
       = progress_values (trace ?s1) @ concat Cs"
    "length Cs = length folders"
    "\<forall>C\<in>set Cs. sorted C \<and> (\<forall>p\<in>set C. 80 < p \<and> p \<le> 100)"
    by blast
  show ?case
    apply (rule exI [of _ "C # Cs"])
    unfolding x using C Cs by simp
qed

lemma consolidar_solo_progress:
  "\<exists>Cs. progress_values (trace (consolidar_solo cb w folders s))
           = progress_values (trace s) @ concat Cs
        \<and> length Cs = length folders
        \<and> (\<forall>C\<in>set Cs. sorted C \<and> (\<forall>p\<in>set C. 0 < p \<and> p \<le> 100))"
proof (induction folders arbitrary: s)
  case Nil
  show ?case by (rule exI [of _ "[]"]) simp
next
  case (Cons x folders)
  obtain tipo folder where x: "x = (tipo, folder)" by (cases x)
  let ?fs = "filter (\<lambda>f. \<not> str_in ''consolidado_total'' f) (glob_csv w folder)"
  let ?T = "consolidar_archivos_descargados cb (read_csv w) (to_csv w (output_file_of folder))
              folder (output_file_of folder) ?fs 0 100"
  let ?s1 = "emits (log cb (MsgConsolidating (basename folder)) @ ?T) s"
  from consolidar_progress [of 100 cb "read_csv w" "to_csv w (output_file_of folder)" folder
      "output_file_of folder" ?fs 0]
  obtain C where C: "progress_values ?T = C" "sorted C" "\<forall>p\<in>set C. 0 < p \<and> p \<le> 100"
    by auto
  from Cons [of ?s1] obtain Cs where Cs:
    "progress_values (trace (consolidar_solo cb w folders ?s1))
       = progress_values (trace ?s1) @ concat Cs"
    "length Cs = length folders"
    "\<forall>C\<in>set Cs. sorted C \<and> (\<forall>p\<in>set C. 0 < p \<and> p \<le> 100)"
    by blast
  show ?case
    apply (rule exI [of _ "C # Cs"])
    unfolding x using C Cs by simp
qed

lemma procesar_progress:
  assumes "\<forall>t\<in>set ups. map_of folders (fst t) \<noteq> None"
  shows "\<exists>ns Cs. progress_values (trace (snd (procesar cfg cb w download_option folders ups s)))
           = progress_values (trace s) @ concat (map (cb_progress cb) ns) @ concat Cs
        \<and> length Cs = length folders
        \<and> (\<forall>C\<in>set Cs. sorted C \<and> (\<forall>p\<in>set C. 0 < p \<and> p \<le> 100))
        \<and> (if download_option = ''consolidate'' then ns = []
            else length ns = length ups \<and> (\<forall>C\<in>set Cs. \<forall>p\<in>set C. 80 < p)
                 \<and> (download_option \<noteq> ''missing'' \<longrightarrow> ns = map (\<lambda>t. length (snd t)) ups))"
proof (cases "download_option = ''consolidate''")
  case True
  let ?s0 = "emits (log cb MsgStartConsolidation) s"
  from consolidar_solo_progress [of cb w folders ?s0] obtain Cs where Cs:
    "progress_values (trace (consolidar_solo cb w folders ?s0)) = progress_values (trace ?s0) @ concat Cs"
    "length Cs = length folders"
    "\<forall>C\<in>set Cs. sorted C \<and> (\<forall>p\<in>set C. 0 < p \<and> p \<le> 100)"
    by blast
  show ?thesis
    apply (rule exI [of _ "[]"], rule exI [of _ Cs])
    using True Cs by (simp add: procesar_def del: emits_emits)
next
  case False
  let ?s0 = "emits (log cb MsgStartDownload) s"
  from download_loop_progress [OF assms, of cfg cb w download_option "[]" ?s0]
  obtain dbt s1 ns where 1:
    "download_loop cfg cb w download_option folders ups [] ?s0 = (Inr dbt, s1)"
    "progress_values (trace s1) = progress_values (trace ?s0) @ concat (map (cb_progress cb) ns)"
    "length ns = length ups"
    "download_option \<noteq> ''missing'' \<longrightarrow> ns = map (\<lambda>t. length (snd t)) ups"
    by blast
  let ?s2 = "emits (log cb MsgDownloadDone @ log cb MsgStartConsolidation) s1"
  from consolidar_descargas_progress [of cb w dbt folders ?s2] obtain Cs where Cs:
    "progress_values (trace (consolidar_descargas cb w dbt folders ?s2))
       = progress_values (trace ?s2) @ concat Cs"
    "length Cs = length folders"
    "\<forall>C\<in>set Cs. sorted C \<and> (\<forall>p\<in>set C. 80 < p \<and> p \<le> 100)"
    by blast
  have r: "\<forall>C\<in>set Cs. sorted C \<and> (\<forall>p\<in>set C. 0 < p \<and> p \<le> 100)" using Cs(3) by fastforce
  have r2: "\<forall>C\<in>set Cs. \<forall>p\<in>set C. 80 < p" using Cs(3) by fastforce
  show ?thesis
    apply (rule exI [of _ ns], rule exI [of _ Cs])
    using False 1 Cs(1,2) r r2 by (simp add: procesar_def del: emits_emits)
qed

lemma selected_ids_names:
  "selected_ids d = Inr ids \<Longrightarrow> i \<in> set ids \<Longrightarrow>
   \<exists>name. (name, True) \<in> set d \<and> map_of module_name_to_id name = Some i"
proof (induction d arbitrary: ids)
  case Nil
  then show ?case by simp
next
  case (Cons x d)
  obtain name selected where x: "x = (name, selected)" by (cases x)
  show ?case
  proof (cases selected)
    case False
    then have "selected_ids d = Inr ids" using Cons.prems(1) x by simp
    from Cons.IH [OF this Cons.prems(2)] obtain n where
      "(n, True) \<in> set d" "map_of module_name_to_id n = Some i" by blast
    then show ?thesis by (intro exI [of _ n]) simp
  next
    case True
    then obtain j ids' where h: "map_of module_name_to_id name = Some j" "selected_ids d = Inr ids'"
      "ids = j # ids'"
      using Cons.prems(1) x by (auto split: option.splits sum.splits)
    show ?thesis
    proof (cases "i = j")
      case e: True
      show ?thesis using h(1) e x True by (intro exI [of _ name]) simp
    next
      case ne: False
      then have "i \<in> set ids'" using Cons.prems(2) h(3) by simp
      from Cons.IH [OF h(2) this] obtain n where
        "(n, True) \<in> set d" "map_of module_name_to_id n = Some i" by blast
      then show ?thesis by (intro exI [of _ n]) simp
    qed
  qed
qed

lemma selected_ids_single:
  assumes "(name, True) \<in> set d" "\<forall>x\<in>set d. snd x \<longrightarrow> fst x = name"
    and "name = ''CCM'' \<or> name = ''PRR''"
  shows "\<exists>ids. selected_ids d = Inr ids \<and> ids \<noteq> []
           \<and> set ids = {if name = ''CCM'' then 58 else 57}"
proof -
  let ?k = "if name = ''CCM'' then 58 else 57 :: nat"
  have "\<forall>x\<in>set d. snd x \<longrightarrow> fst x = ''CCM'' \<or> fst x = ''PRR''"
  proof (intro ballI impI)
    fix x assume "x \<in> set d" "snd x"
    then have "fst x = name" using assms(2) by blast
    then show "fst x = ''CCM'' \<or> fst x = ''PRR''" using assms(3) by simp
  qed
  from selected_ids_total [OF this] obtain ids where
    ids: "selected_ids d = Inr ids" "ids = [] \<longleftrightarrow> \<not> (\<exists>x\<in>set d. snd x)" by blast
  have "\<exists>x\<in>set d. snd x" by (rule bexI [OF _ assms(1)]) simp
  then have ne: "ids \<noteq> []" using ids(2) by blast
  have each: "i = ?k" if "i \<in> set ids" for i
  proof -
    from selected_ids_names [OF ids(1) that] obtain n where
      n: "(n, True) \<in> set d" "map_of module_name_to_id n = Some i" by blast
    have "snd (n, True) \<longrightarrow> fst (n, True) = name" using assms(2) n(1) by blast
    then have "n = name" by simp
    then have "map_of module_name_to_id name = Some i" using n(2) by simp
    then show ?thesis using assms(3) unfolding module_name_to_id_def
      by (cases "name = ''CCM''") simp_all
  qed
  obtain j js where js: "ids = j # js" using ne by (cases ids) simp_all
  have "j = ?k" using each [of j] js by simp
  then have "?k \<in> set ids" using js by simp
  then have "set ids = {?k}" using each by blast
  then show ?thesis using ids(1) ne by blast
qed

lemma descargar_y_consolidar_progress:
  assumes "selected_modules = Some d" "selected_ids d = Inr ids" "ids \<noteq> []"
    and "\<forall>p. makedirs_raises w p = None"
  shows "\<exists>ns Cs.
      progress_values (trace (snd (descargar_y_consolidar cfg cb w download_option overwrite selected_modules s)))
        = progress_values (trace s) @ concat (map (cb_progress cb) ns) @ concat Cs
      \<and> length Cs = length (filter (\<lambda>(k, v). k \<in> set ids) [(58::nat, carpeta w ''CCM''), (57, carpeta w ''PRR'')])
      \<and> (\<forall>C\<in>set Cs. sorted C \<and> (\<forall>p\<in>set C. 0 < p \<and> p \<le> 100))
      \<and> (if download_option = ''consolidate'' then ns = []
          else length ns = length (filter (\<lambda>(k, v). k \<in> set ids) generar_urls_por_partes)
               \<and> (\<forall>C\<in>set Cs. \<forall>p\<in>set C. 80 < p)
               \<and> (download_option \<noteq> ''missing''
                    \<longrightarrow> ns = map (\<lambda>t. length (snd t))
                               (filter (\<lambda>(k, v). k \<in> set ids) generar_urls_por_partes)))"
proof -
  note rg = selected_ids_range [OF assms(2)]
  have d: "d \<noteq> []" using assms(2,3) by (cases d) auto
  have tr: "truthy selected_modules" using assms(1) d by (simp add: truthy_def)
  let ?all = "[(58::nat, carpeta w ''CCM''), (57, carpeta w ''PRR'')]"
  let ?fo = "filter (\<lambda>(k, v). k \<in> set ids) ?all"
  let ?ups = "filter (\<lambda>(k, v). k \<in> set ids) generar_urls_por_partes"
  let ?s1 = "emits [Makedirs (carpeta w ''CCM''), Makedirs (carpeta w ''PRR'')] s"
  let ?s2 = "remove_stale_lock_files cb (STALE_LOCK_MAX_AGE w) (lock_scan w) ?s1"
  let ?s3 = "emits (log cb (MsgSelected
                (map (\<lambda>(k, v). case map_of id_to_name k of None \<Rightarrow> [] | Some n \<Rightarrow> n) ?fo))) ?s2"
  obtain i where i: "i \<in> set ids" using assms(3) by (cases ids) auto
  then have "i = 58 \<or> i = 57" using rg by auto
  then have fne: "?fo \<noteq> []" using i by (auto simp: filter_empty_conv)
  have pr: "\<forall>t\<in>set ?ups. map_of ?fo (fst t) \<noteq> None"
  proof
    fix t assume "t \<in> set ?ups"
    then have "fst t \<in> set ids" by auto
    from folder_present [OF this rg] show "map_of ?fo (fst t) \<noteq> None" .
  qed
  have R: "descargar_y_consolidar cfg cb w download_option overwrite selected_modules s
      = procesar cfg cb w download_option ?fo ?ups ?s3"
    using tr assms(1,2) fne
    unfolding descargar_y_consolidar_def crear_carpetas_ok [OF assms(4)]
    by (simp add: Let_def del: emits_emits filter.simps)
  have p3: "progress_values (trace ?s3) = progress_values (trace s)"
    by (simp add: remove_stale_lock_files_progress)
  from procesar_progress [OF pr, of cfg cb w download_option ?s3]
  show ?thesis unfolding R p3 .
qed

lemma length_urls_de_tipo: "length (urls_de_tipo tipo) = 56"
  by (simp add: urls_de_tipo_def anios_def estados_tramite_def)

lemma filter_single_folder:
  fixes a b :: string
  assumes "set ids = {k}" "k = 58 \<or> k = 57"
  shows "length (filter (\<lambda>(k, v). k \<in> set ids) [(58::nat, a), (57, b)]) = 1"
    and "length (filter (\<lambda>(k, v). k \<in> set ids) generar_urls_por_partes) = 1"
  using assms by (auto simp: generar_urls_eq)

lemma singleton_list: "length xs = 1 \<Longrightarrow> \<exists>x. xs = [x]"
  by (cases xs) auto


section \<open>Atomic commit of a download\<close>

text \<open>
  C1. Whatever the environment does, at every point of a fetch (after any number of its
  events) the destination path holds what it held before the fetch, or, once the fetch
  has committed, the whole body streamed in one attempt, whose length is the advertised
  content length when one was advertised. The destination changes by the rename of the
  temporary file and by nothing else, and a fetch that returns failure leaves the
  destination as it was.
\<close>

theorem descargar_archivo_atomic:
  assumes "descargar_archivo cfg cb url out ow env s = (ok, s')"
  shows "files s' = replay (new_events s s') (files s)
    \<and> (\<forall>n. replay (take n (new_events s s')) (files s) out = files s out
          \<or> (ok \<and> (\<exists>i<retries. \<exists>c. replay (take n (new_events s s')) (files s) out = Some c
                        \<and> verified_body cfg (env i) c)))
    \<and> (\<not> ok \<longrightarrow> files s' out = files s out)"
proof -
  from descargar_archivo_safe [OF assms]
  show ?thesis
  proof
    assume q: "quiet out s s'"
    show ?thesis
      using new_events_quiet [OF q] quiet_files [OF q] by simp
  next
    assume "ok \<and> (\<exists>i<retries. committed cfg out (env i) s s')"
    then obtain i where i: "ok" "i < retries" "committed cfg out (env i) s s'" by blast
    have a: "files s' = replay (new_events s s') (files s)"
      using new_events_committed(1) [OF i(3)] .
    have b: "replay (take n (new_events s s')) (files s) out = files s out
          \<or> (ok \<and> (\<exists>i<retries. \<exists>c. replay (take n (new_events s s')) (files s) out = Some c
                        \<and> verified_body cfg (env i) c))" for n
      using new_events_committed(2) [OF i(3), of n] i(1,2) by blast
    show ?thesis using a b i(1) by blast
  qed
qed

text \<open>
  A fetch over an existing file: the first attempt streams 3 bytes where 10 were
  advertised, the second is answered 401. The fetch fails and the old file stands.
\<close>

theorem descargar_archivo_atomic_witness:
  "\<not> fst (descargar_archivo ex_cfg no_callbacks ''u'' ''d/a.csv'' True
       (\<lambda>a. if a = 0 then ex_env (GetResponse (ex_response 200 10 [''LM1'']))
            else ex_env (GetResponse (ex_response 401 0 [])))
       (ex_state [''d/a.csv'' \<mapsto> ''old'']))
   \<and> files (snd (descargar_archivo ex_cfg no_callbacks ''u'' ''d/a.csv'' True
       (\<lambda>a. if a = 0 then ex_env (GetResponse (ex_response 200 10 [''LM1'']))
            else ex_env (GetResponse (ex_response 401 0 [])))
       (ex_state [''d/a.csv'' \<mapsto> ''old'']))) ''d/a.csv'' = Some ''old''"
proof -
  let ?R = "descargar_archivo ex_cfg no_callbacks ''u'' ''d/a.csv'' True
       (\<lambda>a. if a = 0 then ex_env (GetResponse (ex_response 200 10 [''LM1'']))
            else ex_env (GetResponse (ex_response 401 0 [])))
       (ex_state [''d/a.csv'' \<mapsto> ''old''])"
  have f: "fst ?R = False" by code_simp
  have e: "?R = (False, snd ?R)" using f by (simp add: prod_eq_iff)
  have o: "files (ex_state [''d/a.csv'' \<mapsto> ''old'']) ''d/a.csv'' = Some ''old''"
    by (simp add: ex_state_def)
  have "files (snd ?R) ''d/a.csv'' = files (ex_state [''d/a.csv'' \<mapsto> ''old'']) ''d/a.csv''"
    using descargar_archivo_atomic [OF e] by blast
  then show ?thesis using f o by simp
qed

section \<open>Consolidation\<close>

text \<open>
  C8, as the code has it. The consolidator writes nothing (no directory is made, no
  file is written) when its input list is empty or no source file can be read and
  filtered. It decides on the list of frames, not on their rows: as soon as one source
  file is read, and the write succeeds, the output is written, with zero rows when the
  filter has dropped every row.
\<close>

theorem consolidar_no_output:
  "((downloaded_files = [] \<or> list_all (\<lambda>f. \<not> is_frame (rd f)) downloaded_files)
      \<longrightarrow> list_all (\<lambda>e. \<not> is_output e)
            (consolidar_archivos_descargados cb rd wr folder output_file downloaded_files b w))
   \<and> (list_ex (\<lambda>f. is_frame (rd f)) downloaded_files \<and> wr = WriteOk
      \<longrightarrow> WriteCsv output_file (concat (map (retained_rows rd) downloaded_files))
            \<in> set (consolidar_archivos_descargados cb rd wr folder output_file downloaded_files b w))"
proof -
  obtain dfs tr where L:
    "consolidar_loop cb rd b w (length downloaded_files) 0 downloaded_files ([], []) = (dfs, tr)"
    by (cases "consolidar_loop cb rd b w (length downloaded_files) 0 downloaded_files ([], [])")
  have q: "list_all (\<lambda>e. \<not> is_output e) tr"
    using consolidar_loop_quiet [of "[]" cb rd b w "length downloaded_files" 0 downloaded_files "[]"] L
    by simp
  have d: "dfs = map (retained_rows rd) (filter (\<lambda>f. is_frame (rd f)) downloaded_files)"
    using consolidar_loop_frames [of cb rd b w "length downloaded_files" 0 downloaded_files "[]" "[]"] L
    by simp
  have 1: "list_all (\<lambda>e. \<not> is_output e)
            (consolidar_archivos_descargados cb rd wr folder output_file downloaded_files b w)"
    if "downloaded_files = [] \<or> list_all (\<lambda>f. \<not> is_frame (rd f)) downloaded_files"
  proof -
    have "filter (\<lambda>f. is_frame (rd f)) downloaded_files = []"
      using that by (auto simp: list_all_iff filter_empty_conv)
    then have "dfs = []" using d by simp
    then show ?thesis
      unfolding consolidar_archivos_descargados_def L using q by simp
  qed
  have 2: "WriteCsv output_file (concat (map (retained_rows rd) downloaded_files))
            \<in> set (consolidar_archivos_descargados cb rd wr folder output_file downloaded_files b w)"
    if "list_ex (\<lambda>f. is_frame (rd f)) downloaded_files \<and> wr = WriteOk"
  proof -
    have "filter (\<lambda>f. is_frame (rd f)) downloaded_files \<noteq> []"
      using that by (auto simp: list_ex_iff filter_empty_conv)
    then have "dfs \<noteq> []" "downloaded_files \<noteq> []" using d by auto
    then show ?thesis
      unfolding consolidar_archivos_descargados_def L using that
      by (simp add: d concat_retained)
  qed
  show ?thesis using 1 2 by blast
qed

text \<open>No source file can be read: nothing is written.\<close>

theorem consolidar_no_output_witness:
  "list_all (\<lambda>e. \<not> is_output e)
     (consolidar_archivos_descargados no_callbacks ex_rows WriteOk ''d'' ''d/out.csv''
        [''d/2024_A.csv'', ''d/2024_P.csv''] 80 20)
   \<and> WriteCsv ''d/out.csv'' (concat (map (retained_rows ex_rows) [''d/2025_P.csv'']))
       \<in> set (consolidar_archivos_descargados no_callbacks ex_rows WriteOk ''d'' ''d/out.csv''
                [''d/2025_P.csv''] 80 20)"
proof -
  have a: "list_all (\<lambda>f. \<not> is_frame (ex_rows f)) [''d/2024_A.csv'', ''d/2024_P.csv'']"
    by (simp add: ex_rows_def is_frame_def)
  have b: "list_ex (\<lambda>f. is_frame (ex_rows f)) [''d/2025_P.csv'']"
    by (simp add: ex_rows_def is_frame_def)
  show ?thesis
    using consolidar_no_output [of "[''d/2024_A.csv'', ''d/2024_P.csv'']" ex_rows no_callbacks
        WriteOk "''d''" "''d/out.csv''" 80 20]
      consolidar_no_output [of "[''d/2025_P.csv'']" ex_rows no_callbacks
        WriteOk "''d''" "''d/out.csv''" 80 20] a b
    by blast
qed

text \<open>
  The claim as the specification states it fails: the only source file is read, its
  only row does not start with LM and is dropped, and an output file with no rows is
  written all the same.
\<close>

theorem consolidar_no_output_counterexample:
  "keep_LM [\<lparr>NumeroTramite = ''XX003'', cells = [''z'']\<rparr>] = []
   \<and> ex_rows ''d/2025_P.csv'' = Frame [\<lparr>NumeroTramite = ''XX003'', cells = [''z'']\<rparr>]
   \<and> WriteCsv ''d/out.csv'' []
       \<in> set (consolidar_archivos_descargados no_callbacks ex_rows WriteOk ''d'' ''d/out.csv''
                [''d/2025_P.csv''] 80 20)"
  by code_simp

text \<open>
  C9. When the consolidator writes its output, it writes it to the output file, and the
  rows written are, file by file in the order of the input list, the rows of each file
  that was read whose \<^verbatim>\<open>NumeroTramite\<close> begins with the two characters LM, in the
  order they have in the file, each with the base name of its file as
  \<^verbatim>\<open>ARCHIVO_ORIGEN\<close>; a file that could not be read, or whose filter raised,
  contributes nothing. So the row count is the sum over the files that were read of
  the number of their rows that begin with LM. Every row written begins with LM, comes
  from a row of a file of the list that was read, and carries a provenance that is not
  empty and is that file's base name: it has no separator in it, and the file's path
  is the provenance itself or ends with a separator followed by it. The hypothesis says
  that a file that can be read has a path that is not empty and does not end with a
  separator.
\<close>

theorem consolidar_completeness:
  assumes "WriteCsv p rows
             \<in> set (consolidar_archivos_descargados cb rd wr folder output_file downloaded_files b w)"
    and "\<forall>f\<in>set downloaded_files. \<forall>rs. rd f = Frame rs \<longrightarrow>
           f \<noteq> [] \<and> last f \<noteq> CHR ''/'' \<and> last f \<noteq> CHR 0x5C"
  shows "p = output_file
    \<and> rows = concat (map (\<lambda>f. case rd f of
                  Frame rs \<Rightarrow>
                    map (\<lambda>r. \<lparr>NumeroTramite = NumeroTramite r, cells = cells r,
                               ARCHIVO_ORIGEN = basename f\<rparr>)
                      (filter (\<lambda>r. take 2 (NumeroTramite r) = ''LM'') rs)
                | _ \<Rightarrow> []) downloaded_files)
    \<and> length rows
        = sum_list (map (\<lambda>f. case rd f of
                      Frame rs \<Rightarrow> length (filter (\<lambda>r. take 2 (NumeroTramite r) = ''LM'') rs)
                    | _ \<Rightarrow> 0) downloaded_files)
    \<and> (\<forall>r\<in>set rows.
          ARCHIVO_ORIGEN r \<noteq> []
        \<and> take 2 (NumeroTramite r) = ''LM''
        \<and> (\<forall>c\<in>set (ARCHIVO_ORIGEN r). c \<noteq> CHR ''/'' \<and> c \<noteq> CHR 0x5C)
        \<and> (\<exists>f\<in>set downloaded_files. \<exists>rs d.
              rd f = Frame rs
            \<and> \<lparr>NumeroTramite = NumeroTramite r, cells = cells r\<rparr> \<in> set rs
            \<and> ARCHIVO_ORIGEN r = basename f
            \<and> f = d @ ARCHIVO_ORIGEN r
            \<and> (d = [] \<or> last d = CHR ''/'' \<or> last d = CHR 0x5C)))"
proof -
  let ?lm = "\<lambda>r::row. take 2 (NumeroTramite r) = ''LM''"
  let ?part = "\<lambda>f. case rd f of
                  Frame rs \<Rightarrow>
                    map (\<lambda>r. \<lparr>NumeroTramite = NumeroTramite r, cells = cells r,
                               ARCHIVO_ORIGEN = basename f\<rparr>) (filter ?lm rs)
                | _ \<Rightarrow> []"
  have part: "retained_rows rd = ?part"
    by (rule ext) (rule retained_rows_explicit)
  from consolidar_written [OF assms(1)]
  have p: "p = output_file" and rows: "rows = concat (map ?part downloaded_files)"
    by (simp_all add: part)
  have len: "length (concat (map ?part fs))
      = sum_list (map (\<lambda>f. case rd f of Frame rs \<Rightarrow> length (filter ?lm rs) | _ \<Rightarrow> 0) fs)" for fs
    by (induction fs) (simp_all split: parse_result.splits)
  have each: "ARCHIVO_ORIGEN r \<noteq> []
        \<and> take 2 (NumeroTramite r) = ''LM''
        \<and> (\<forall>c\<in>set (ARCHIVO_ORIGEN r). c \<noteq> CHR ''/'' \<and> c \<noteq> CHR 0x5C)
        \<and> (\<exists>f\<in>set downloaded_files. \<exists>rs d.
              rd f = Frame rs
            \<and> \<lparr>NumeroTramite = NumeroTramite r, cells = cells r\<rparr> \<in> set rs
            \<and> ARCHIVO_ORIGEN r = basename f
            \<and> f = d @ ARCHIVO_ORIGEN r
            \<and> (d = [] \<or> last d = CHR ''/'' \<or> last d = CHR 0x5C))"
    if "r \<in> set rows" for r
  proof -
    from that rows obtain f where f: "f \<in> set downloaded_files" "r \<in> set (?part f)"
      by auto
    then obtain rs where rs: "rd f = Frame rs"
      by (cases "rd f") auto
    with f(2) obtain r0 where r0: "r0 \<in> set rs" "?lm r0"
      and r: "r = \<lparr>NumeroTramite = NumeroTramite r0, cells = cells r0, ARCHIVO_ORIGEN = basename f\<rparr>"
      by auto
    have o: "ARCHIVO_ORIGEN r = basename f" and n: "NumeroTramite r = NumeroTramite r0"
      and c: "cells r = cells r0"
      by (simp_all add: r)
    have r0': "\<lparr>NumeroTramite = NumeroTramite r, cells = cells r\<rparr> = r0"
      by (simp add: n c)
    have "f \<noteq> [] \<and> last f \<noteq> CHR ''/'' \<and> last f \<noteq> CHR 0x5C"
      using assms(2) f(1) rs by blast
    then have ne: "basename f \<noteq> []" by (simp add: basename_nonempty)
    obtain d where d: "f = d @ basename f" "d = [] \<or> last d = CHR ''/'' \<or> last d = CHR 0x5C"
      using basename_suffix [of f] by blast
    have ns: "\<forall>c\<in>set (ARCHIVO_ORIGEN r). c \<noteq> CHR ''/'' \<and> c \<noteq> CHR 0x5C"
      unfolding o using basename_no_sep [of _ f] by blast
    have ex: "\<exists>f\<in>set downloaded_files. \<exists>rs d.
              rd f = Frame rs
            \<and> \<lparr>NumeroTramite = NumeroTramite r, cells = cells r\<rparr> \<in> set rs
            \<and> ARCHIVO_ORIGEN r = basename f
            \<and> f = d @ ARCHIVO_ORIGEN r
            \<and> (d = [] \<or> last d = CHR ''/'' \<or> last d = CHR 0x5C)"
      using f(1) rs r0(1) r0' o d by (intro bexI [of _ f] exI [of _ rs] exI [of _ d]) simp_all
    show ?thesis using ne o n r0(2) ns ex by simp
  qed
  have l: "length rows
        = sum_list (map (\<lambda>f. case rd f of Frame rs \<Rightarrow> length (filter ?lm rs) | _ \<Rightarrow> 0)
            downloaded_files)"
    unfolding rows by (rule len)
  show ?thesis using p rows l each by blast
qed

text \<open>
  Five source files, listed out of alphabetical order. The first keeps both its rows, the
  second cannot be read, the third keeps the first and the last of its three rows, the
  filter of the fourth raises, the fifth keeps none of its one row. Four rows are
  written, those of the first file before those of the third: 2 + 0 + 2 + 0 + 0.
\<close>

theorem consolidar_completeness_witness:
  "WriteCsv ''d/out.csv''
       [\<lparr>NumeroTramite = ''LM005'', cells = [''v''], ARCHIVO_ORIGEN = ''2025_D.csv''\<rparr>,
        \<lparr>NumeroTramite = ''LM006'', cells = [''w''], ARCHIVO_ORIGEN = ''2025_D.csv''\<rparr>,
        \<lparr>NumeroTramite = ''LM001'', cells = [''x''], ARCHIVO_ORIGEN = ''2025_A.csv''\<rparr>,
        \<lparr>NumeroTramite = ''LM003'', cells = [''z''], ARCHIVO_ORIGEN = ''2025_A.csv''\<rparr>]
     \<in> set (consolidar_archivos_descargados no_callbacks ex_partitions WriteOk ''d'' ''d/out.csv''
              [''d/2025_D.csv'', ''d/2025_B.csv'', ''d/2025_A.csv'', ''d/2025_C.csv'',
               ''d/2025_P.csv''] 80 20)
   \<and> length
       [\<lparr>NumeroTramite = ''LM005'', cells = [''v''], ARCHIVO_ORIGEN = ''2025_D.csv''\<rparr>,
        \<lparr>NumeroTramite = ''LM006'', cells = [''w''], ARCHIVO_ORIGEN = ''2025_D.csv''\<rparr>,
        \<lparr>NumeroTramite = ''LM001'', cells = [''x''], ARCHIVO_ORIGEN = ''2025_A.csv''\<rparr>,
        \<lparr>NumeroTramite = ''LM003'', cells = [''z''], ARCHIVO_ORIGEN = ''2025_A.csv''\<rparr>]
       = sum_list (map (\<lambda>f. case ex_partitions f of
                      Frame rs \<Rightarrow> length (filter (\<lambda>r. take 2 (NumeroTramite r) = ''LM'') rs)
                    | _ \<Rightarrow> 0)
           [''d/2025_D.csv'', ''d/2025_B.csv'', ''d/2025_A.csv'', ''d/2025_C.csv'',
            ''d/2025_P.csv''])
   \<and> sum_list (map (\<lambda>f. case ex_partitions f of
                      Frame rs \<Rightarrow> length (filter (\<lambda>r. take 2 (NumeroTramite r) = ''LM'') rs)
                    | _ \<Rightarrow> 0)
           [''d/2025_D.csv'', ''d/2025_B.csv'', ''d/2025_A.csv'', ''d/2025_C.csv'',
            ''d/2025_P.csv'']) = 4"
proof -
  let ?fs = "[''d/2025_D.csv'', ''d/2025_B.csv'', ''d/2025_A.csv'', ''d/2025_C.csv'',
              ''d/2025_P.csv'']"
  have a: "WriteCsv ''d/out.csv''
       [\<lparr>NumeroTramite = ''LM005'', cells = [''v''], ARCHIVO_ORIGEN = ''2025_D.csv''\<rparr>,
        \<lparr>NumeroTramite = ''LM006'', cells = [''w''], ARCHIVO_ORIGEN = ''2025_D.csv''\<rparr>,
        \<lparr>NumeroTramite = ''LM001'', cells = [''x''], ARCHIVO_ORIGEN = ''2025_A.csv''\<rparr>,
        \<lparr>NumeroTramite = ''LM003'', cells = [''z''], ARCHIVO_ORIGEN = ''2025_A.csv''\<rparr>]
     \<in> set (consolidar_archivos_descargados no_callbacks ex_partitions WriteOk ''d'' ''d/out.csv''
              ?fs 80 20)"
    by code_simp
  have b: "\<forall>f\<in>set ?fs. \<forall>rs. ex_partitions f = Frame rs \<longrightarrow>
             f \<noteq> [] \<and> last f \<noteq> CHR ''/'' \<and> last f \<noteq> CHR 0x5C"
    by simp
  have c: "sum_list (map (\<lambda>f. case ex_partitions f of
                      Frame rs \<Rightarrow> length (filter (\<lambda>r. take 2 (NumeroTramite r) = ''LM'') rs)
                    | _ \<Rightarrow> 0) ?fs) = 4"
    by code_simp
  from consolidar_completeness [OF a b] a c show ?thesis by blast
qed

section \<open>Retries and backoff\<close>

text \<open>
  C6, as the code has it. One fetch issues at most 5 requests and sleeps at most 4
  backoff delays. When the first \<open>n\<close> attempts each raise a request exception (a
  network error, an HTTP error status other than 401, a size mismatch), the k-th backoff
  delay, for k up to \<open>min n 4\<close>, is \<open>sleep_time (k - 1)\<close>: 5 * 2^(k-1), plus the
  jitter draw, plus \<open>5 + 10 * draw\<close> when the text of the exception contains 502, 503
  or 504, as the text of the HTTP error for these three statuses does. With both draws
  in [0, 1) the jitter lies in [0, 1) and the extra delay in [5, 15). When all 5
  attempts fail so, exactly 4 delays are slept: none follows the last attempt.
\<close>

theorem backoff_schedule:
  assumes "descargar_archivo cfg cb url out ow env s = (ok, s')"
  shows "retries = 5 \<and> retry_delay = 5
    \<and> requests (new_events s s') \<le> retries
    \<and> length (backoffs (new_events s s')) \<le> retries - 1
    \<and> ((files s out = None \<or> ow) \<and> n \<le> retries
         \<and> (\<forall>i<n. \<forall>t. fst (try_body cfg cb url out i (env i) t) = Inl (RequestException (m i)))
       \<longrightarrow> take (min n (retries - 1)) (backoffs (new_events s s'))
             = map (\<lambda>i. sleep_time i (env i) (m i)) [0..<min n (retries - 1)]
           \<and> n \<le> requests (new_events s s')
           \<and> (n = retries \<longrightarrow> \<not> ok
                 \<and> backoffs (new_events s s') = map (\<lambda>i. sleep_time i (env i) (m i)) [0..<retries - 1]
                 \<and> requests (new_events s s') = retries))
    \<and> (\<forall>a e msg.
          sleep_time a e msg
            = retry_delay * 2 ^ a + rnd_jitter e
              + (if server_error_text msg then 5 + 10 * rnd_extra e else 0)
          \<and> (0 \<le> rnd_jitter e \<and> rnd_jitter e < 1 \<and> 0 \<le> rnd_extra e \<and> rnd_extra e < 1
             \<longrightarrow> (if server_error_text msg
                  then retry_delay * 2 ^ a + 5 \<le> sleep_time a e msg
                       \<and> sleep_time a e msg < retry_delay * 2 ^ a + 16
                  else retry_delay * 2 ^ a \<le> sleep_time a e msg
                       \<and> sleep_time a e msg < retry_delay * 2 ^ a + 1)))
    \<and> (\<forall>r msg. (status_code r = 502 \<or> status_code r = 503 \<or> status_code r = 504)
                \<and> raise_for_status url r = Some msg
          \<longrightarrow> server_error_text msg)"
proof -
  have 1: "retries = 5 \<and> retry_delay = 5" by (simp add: retries_def retry_delay_def)
  note 2 = descargar_archivo_counts [OF assms]
  have 3: "(files s out = None \<or> ow) \<and> n \<le> retries
         \<and> (\<forall>i<n. \<forall>t. fst (try_body cfg cb url out i (env i) t) = Inl (RequestException (m i)))
       \<longrightarrow> take (min n (retries - 1)) (backoffs (new_events s s'))
             = map (\<lambda>i. sleep_time i (env i) (m i)) [0..<min n (retries - 1)]
           \<and> n \<le> requests (new_events s s')
           \<and> (n = retries \<longrightarrow> \<not> ok
                 \<and> backoffs (new_events s s') = map (\<lambda>i. sleep_time i (env i) (m i)) [0..<retries - 1]
                 \<and> requests (new_events s s') = retries)"
    using descargar_archivo_transient [OF assms, of n m] by blast
  have 4: "sleep_time a e msg
            = retry_delay * 2 ^ a + rnd_jitter e
              + (if server_error_text msg then 5 + 10 * rnd_extra e else 0)" for a e msg
    unfolding sleep_time_def uniform_def by simp
  have 5: "0 \<le> rnd_jitter e \<and> rnd_jitter e < 1 \<and> 0 \<le> rnd_extra e \<and> rnd_extra e < 1
             \<longrightarrow> (if server_error_text msg
                  then retry_delay * 2 ^ a + 5 \<le> sleep_time a e msg
                       \<and> sleep_time a e msg < retry_delay * 2 ^ a + 16
                  else retry_delay * 2 ^ a \<le> sleep_time a e msg
                       \<and> sleep_time a e msg < retry_delay * 2 ^ a + 1)" for a e msg
    using sleep_time_bounds [of e msg a] by blast
  have 6: "(status_code r = 502 \<or> status_code r = 503 \<or> status_code r = 504)
                \<and> raise_for_status url r = Some msg
          \<longrightarrow> server_error_text msg" for r msg
    using server_error_50x [of r url msg] by blast
  show ?thesis using 1 2 3 4 5 6 by blast
qed


text \<open>Two timeouts, then success: the delays are 5 + 1/2 and 10 + 1/2.\<close>

theorem backoff_schedule_witness:
  "take 2 (backoffs (new_events (ex_state Map.empty)
      (snd (descargar_archivo ex_cfg no_callbacks ''u'' ''d/a.csv'' True
             (ex_flaky 2 (GetResponse (ex_response 200 3 [''LM1''])))
             (ex_state Map.empty)))))
     = [11 / 2, 21 / 2]
   \<and> requests (new_events (ex_state Map.empty)
      (snd (descargar_archivo ex_cfg no_callbacks ''u'' ''d/a.csv'' True
             (ex_flaky 2 (GetResponse (ex_response 200 3 [''LM1''])))
             (ex_state Map.empty)))) \<le> 5"
proof -
  let ?env = "ex_flaky 2 (GetResponse (ex_response 200 3 [''LM1'']))"
  let ?R = "descargar_archivo ex_cfg no_callbacks ''u'' ''d/a.csv'' True ?env (ex_state Map.empty)"
  have e: "?R = (fst ?R, snd ?R)" by simp
  have h1: "files (ex_state Map.empty) ''d/a.csv'' = None \<or> True" by simp
  have h2: "(2::nat) \<le> retries" by (simp add: retries_def)
  have h3: "\<forall>i<2. \<forall>t. fst (try_body ex_cfg no_callbacks ''u'' ''d/a.csv'' i (?env i) t)
              = Inl (RequestException ((\<lambda>i. ''timeout'') i))"
    by (simp add: fst_try_body try_outcome_def request_outcome_def ex_flaky_def ex_env_def)
  have m: "min 2 (retries - 1) = 2" by (simp add: retries_def)
  have u: "[0..<2] = [0, Suc 0]" by (simp add: upt_conv_Cons)
  have s: "sleep_time 0 (?env 0) ''timeout'' = 11 / 2" "sleep_time (Suc 0) (?env (Suc 0)) ''timeout'' = 21 / 2"
    by (simp_all add: sleep_time_def uniform_def retry_delay_def server_error_text_def
        ex_flaky_def ex_env_def)
  from backoff_schedule [OF e, of 2 "\<lambda>i. ''timeout''"] h1 h2 h3
  have "take (min 2 (retries - 1)) (backoffs (new_events (ex_state Map.empty) (snd ?R)))
          = map (\<lambda>i. sleep_time i (?env i) ''timeout'') [0..<min 2 (retries - 1)]"
    and "requests (new_events (ex_state Map.empty) (snd ?R)) \<le> retries"
    by blast+
  then show ?thesis unfolding m u using s by (simp add: retries_def)
qed

text \<open>
  The claim as stated fails for a 5xx status outside 502, 503 and 504: after a 500
  response the delay is 5 plus the jitter, with no extra delay.
\<close>

theorem backoff_schedule_counterexample:
  "status_code (ex_response 500 0 []) = 500
   \<and> raise_for_status ''u'' (ex_response 500 0 []) = Some ''500 Server Error: r for url: u''
   \<and> backoffs (trace (snd (descargar_archivo ex_cfg no_callbacks ''u'' ''d/a.csv'' True
        (\<lambda>a. if a = 0 then ex_env (GetResponse (ex_response 500 0 []))
             else ex_env (GetResponse (ex_response 200 3 [''LM1''])))
        (ex_state Map.empty))))
       = [retry_delay * 2 ^ 0 + rnd_jitter (ex_env (GetResponse (ex_response 500 0 [])))]
   \<and> \<not> (retry_delay * 2 ^ 0 + rnd_jitter (ex_env (GetResponse (ex_response 500 0 []))) + 5
          \<le> retry_delay * 2 ^ 0 + rnd_jitter (ex_env (GetResponse (ex_response 500 0 []))))"
  by code_simp

section \<open>Authentication errors\<close>

text \<open>
  C7. When attempt \<open>a\<close> of a fetch is answered 401, after \<open>a\<close> attempts that each
  raised a request exception, the fetch returns failure; it has issued \<open>a + 1\<close>
  requests, the last one being the one answered 401, and slept the \<open>a\<close> backoff
  delays of the earlier attempts and none after the 401: what follows the request is
  the release of the lock, the error reports and the closing of the session. In a
  batch, the destinations reported as downloaded are those of the tasks whose own fetch
  succeeds, each judged on its own environment alone, so a task that fails on 401
  takes no other task with it.
\<close>

theorem auth_error_stops_fetch:
  assumes "descargar_archivo cfg cb url out ow env s = (ok, s')"
    and "files s out = None \<or> ow"
    and "a < retries"
    and "\<forall>i<a. \<forall>t. fst (try_body cfg cb url out i (env i) t) = Inl (RequestException (m i))"
    and "lock_result (env a) \<noteq> LockTimeout"
    and "get_result (env a) = GetResponse r"
    and "status_code r = 401"
  shows "\<not> ok
    \<and> requests (new_events s s') = Suc a
    \<and> backoffs (new_events s s') = map (\<lambda>i. sleep_time i (env i) (m i)) [0..<a]
    \<and> (\<exists>pre. new_events s s'
          = pre @ [Request url, LockRelease (lock_file_path out)]
              @ err cb out (MsgException auth_rejected) @ [SessionClose]
              @ err cb out (MsgFailedAfter retries auth_rejected))
    \<and> (\<forall>fenv tipo urls output_folder t.
          fst (descargar_en_paralelo cfg cb fenv tipo urls output_folder t)
            = map (task_path output_folder) (filter (task_succeeds cfg cb fenv output_folder) urls))"
proof -
  have R: "retry_loop cfg cb url out env retries 0 None s = (ok, s')"
    using assms(1,2) unfolding descargar_archivo_def by (auto split: if_splits)
  have "\<forall>i. 0 \<le> i \<and> i < 0 + a \<longrightarrow> try_outcome cfg url (env i) = Inl (RequestException (m i))"
    using assms(4) fst_try_body by simp
  moreover have "a \<le> retries" using assms(3) by simp
  ultimately obtain l1 s1 where
    h: "retry_loop cfg cb url out env retries 0 None s = retry_loop cfg cb url out env (retries - a) a l1 s1"
       "quiet out s s1"
       "requests (trace s1) = requests (trace s) + a"
       "backoffs (trace s1) = backoffs (trace s)
          @ map (\<lambda>i. sleep_time i (env i) (m i)) (filter (\<lambda>i. i < retries - 1) [0..<a])"
    using retry_loop_transient_quiet [of 0 a cfg url env m retries cb out None s] by auto
  obtain k where k: "retries - a = Suc k" using assms(3) by (cases "retries - a") auto
  define E where "E = log cb (MsgAttempt (a + 1) retries url) @ (if a > 0 then [SessionClose] else [])
             @ lock_events cb out (env a)"
  define T where "T = [Request url, LockRelease (lock_file_path out)]
             @ err cb out (MsgException auth_rejected) @ [SessionClose]
             @ err cb out (MsgFailedAfter retries auth_rejected)"
  have "retry_loop cfg cb url out env (Suc k) a l1 s1 = (False, emits (E @ T) s1)"
    using attempt_body_401 [OF assms(5,6,7), of cfg cb url out a l1 s1]
    by (simp add: after_loop_def E_def T_def)
  then have res: "ok = False" "s' = emits (E @ T) s1" using R h(1) k by simp_all
  note x1 = quiet_extends [OF h(2)]
  have ne: "new_events s s' = new_events s s1 @ E @ T"
    unfolding res(2) using new_events_emits [OF x1] by simp
  note c1 = new_counts [OF x1]
  have ra: "requests (new_events s s1) = a" using c1(1) h(3) by simp
  have fb: "filter (\<lambda>i. i < retries - 1) [0..<a] = [0..<a]"
    using assms(3) by (intro filter_below) simp
  have ba: "backoffs (new_events s s1) = map (\<lambda>i. sleep_time i (env i) (m i)) [0..<a]"
    using c1(2) h(4) fb by simp
  have cE: "requests E = 0" "backoffs E = []"
    unfolding E_def lock_events_def by simp_all
  have cT: "requests T = 1" "backoffs T = []"
    unfolding T_def by simp_all
  have 1: "requests (new_events s s') = Suc a" unfolding ne using ra cE cT by simp
  have 2: "backoffs (new_events s s') = map (\<lambda>i. sleep_time i (env i) (m i)) [0..<a]"
    unfolding ne using ba cE cT by simp
  have 3: "\<exists>pre. new_events s s'
          = pre @ [Request url, LockRelease (lock_file_path out)]
              @ err cb out (MsgException auth_rejected) @ [SessionClose]
              @ err cb out (MsgFailedAfter retries auth_rejected)"
    by (rule exI [of _ "new_events s s1 @ E"]) (simp add: ne T_def)
  have 4: "fst (descargar_en_paralelo cfg cb fenv tipo urls output_folder t)
            = map (task_path output_folder) (filter (task_succeeds cfg cb fenv output_folder) urls)"
    for fenv tipo urls output_folder t
    unfolding descargar_en_paralelo_def by (simp add: fst_descargar_tasks)
  show ?thesis using res(1) 1 2 3 4 by blast
qed


text \<open>A timeout, then 401: two requests, one backoff delay, failure.\<close>

theorem auth_error_stops_fetch_witness:
  "\<not> fst (descargar_archivo ex_cfg no_callbacks ''u'' ''d/a.csv'' True
          (ex_flaky 1 (GetResponse (ex_response 401 0 []))) (ex_state Map.empty))
   \<and> requests (new_events (ex_state Map.empty)
        (snd (descargar_archivo ex_cfg no_callbacks ''u'' ''d/a.csv'' True
               (ex_flaky 1 (GetResponse (ex_response 401 0 []))) (ex_state Map.empty)))) = 2
   \<and> backoffs (new_events (ex_state Map.empty)
        (snd (descargar_archivo ex_cfg no_callbacks ''u'' ''d/a.csv'' True
               (ex_flaky 1 (GetResponse (ex_response 401 0 []))) (ex_state Map.empty)))) = [11 / 2]"
proof -
  let ?env = "ex_flaky 1 (GetResponse (ex_response 401 0 []))"
  let ?R = "descargar_archivo ex_cfg no_callbacks ''u'' ''d/a.csv'' True ?env (ex_state Map.empty)"
  have e: "?R = (fst ?R, snd ?R)" by simp
  have h1: "files (ex_state Map.empty) ''d/a.csv'' = None \<or> True" by simp
  have h2: "(1::nat) < retries" by (simp add: retries_def)
  have h3: "\<forall>i<1. \<forall>t. fst (try_body ex_cfg no_callbacks ''u'' ''d/a.csv'' i (?env i) t)
              = Inl (RequestException ((\<lambda>i. ''timeout'') i))"
    by (simp add: fst_try_body try_outcome_def request_outcome_def ex_flaky_def ex_env_def)
  have h4: "lock_result (?env 1) \<noteq> LockTimeout"
    and h5: "get_result (?env 1) = GetResponse (ex_response 401 0 [])"
    and h6: "status_code (ex_response 401 0 []) = 401"
    by (simp_all add: ex_flaky_def ex_env_def ex_response_def)
  have s: "sleep_time 0 (?env 0) ''timeout'' = 11 / 2"
    by (simp add: sleep_time_def uniform_def retry_delay_def server_error_text_def
        ex_flaky_def ex_env_def)
  from auth_error_stops_fetch [OF e h1 h2 h3 h4 h5 h6]
  have "\<not> fst ?R"
    and "requests (new_events (ex_state Map.empty) (snd ?R)) = Suc 1"
    and "backoffs (new_events (ex_state Map.empty) (snd ?R))
           = map (\<lambda>i. sleep_time i (?env i) ''timeout'') [0..<1]"
    by blast+
  then show ?thesis using s by simp
qed

section \<open>The lock and the write\<close>

text \<open>
  C2. The \<^verbatim>\<open>with file_lock(...)\<close> block of the code ends after the status checks:
  the lock is released before the temporary file is opened. In a fetch that succeeds
  at its first attempt, the temporary file is written and renamed after the release.
\<close>

theorem lock_released_before_write:
  "trace (snd (descargar_archivo ex_cfg no_callbacks ''u'' ''d/a.csv'' True
     (\<lambda>a. ex_env (GetResponse (ex_response 200 3 [''LM1'']))) (ex_state Map.empty)))
   = [LockAcquire ''d/a.csv.lock'', Request ''u'', LockRelease ''d/a.csv.lock'',
      OpenTrunc ''d/a.csv.tmp'', Write ''d/a.csv.tmp'' ''LM1'',
      Replace ''d/a.csv.tmp'' ''d/a.csv'', SessionClose]"
  by code_simp

section \<open>Re-running a batch\<close>

text \<open>
  C3. The orchestrator submits every fetch with \<^verbatim>\<open>overwrite=True\<close>, whatever the
  batch was called with. A task whose destination exists is requested again and its
  file replaced, where the fetcher called with \<^verbatim>\<open>overwrite=False\<close> on the same
  state issues no request.
\<close>

theorem batch_refetches_existing_files:
  "files (ex_state [file_path_of ''d'' 2025 ''A'' \<mapsto> ''old'']) (file_path_of ''d'' 2025 ''A'') = Some ''old''
   \<and> requests (trace (snd (descargar_en_paralelo ex_cfg no_callbacks
        (\<lambda>p a. ex_env (GetResponse (ex_response 200 3 [''LM1''])))
        58 [construir_url 58 2025 ''A''] ''d''
        (ex_state [file_path_of ''d'' 2025 ''A'' \<mapsto> ''old''])))) = 1
   \<and> files (snd (descargar_en_paralelo ex_cfg no_callbacks
        (\<lambda>p a. ex_env (GetResponse (ex_response 200 3 [''LM1''])))
        58 [construir_url 58 2025 ''A''] ''d''
        (ex_state [file_path_of ''d'' 2025 ''A'' \<mapsto> ''old'']))) (file_path_of ''d'' 2025 ''A'') = Some ''LM1''
   \<and> requests (trace (snd (descargar_archivo ex_cfg no_callbacks
        (fst (construir_url 58 2025 ''A'')) (file_path_of ''d'' 2025 ''A'') False
        (\<lambda>a. ex_env (GetResponse (ex_response 200 3 [''LM1''])))
        (ex_state [file_path_of ''d'' 2025 ''A'' \<mapsto> ''old''])))) = 0"
  by code_simp


section \<open>The result of a batch\<close>

text \<open>
  C10. The planner makes task groups for the types 58, 57, 317 and 55, and folders are
  made for 58 and 57 only. A batch that downloads (any option but consolidate) with no
  module filter (\<^verbatim>\<open>selected_modules\<close> is \<^verbatim>\<open>None\<close> or empty) is left by the
  \<^verbatim>\<open>KeyError\<close> of \<^verbatim>\<open>folders[317]\<close>, whatever the downloads of 58 and 57 did.
  With a filter whose selected names are among CCM and PRR the batch returns.
\<close>

theorem unfiltered_batch_raises_KeyError:
  "map fst generar_urls_por_partes = [58, 57, 317, 55]
   \<and> map fst tipos_tramite = [58, 57]
   \<and> (\<not> truthy selected_modules \<and> download_option \<noteq> ''consolidate''
        \<and> (\<forall>p. makedirs_raises w p = None)
      \<longrightarrow> fst (descargar_y_consolidar cfg cb w download_option overwrite selected_modules s)
            = Inl (KeyError_tipo 317))
   \<and> (selected_modules = Some d \<and> d \<noteq> []
        \<and> (\<forall>x\<in>set d. snd x \<longrightarrow> fst x = ''CCM'' \<or> fst x = ''PRR'')
        \<and> (\<forall>p. makedirs_raises w p = None)
      \<longrightarrow> (\<exists>r. fst (descargar_y_consolidar cfg cb w download_option overwrite selected_modules s)
                 = Inr r))"
proof -
  have 1: "map fst generar_urls_por_partes = [58, 57, 317, 55]"
    by (simp add: generar_urls_eq)
  have 2: "map fst tipos_tramite = [58, 57]" by (simp add: tipos_tramite_def)
  have 3: "fst (descargar_y_consolidar cfg cb w download_option overwrite selected_modules s)
            = Inl (KeyError_tipo 317)"
    if "\<not> truthy selected_modules \<and> download_option \<noteq> ''consolidate''
        \<and> (\<forall>p. makedirs_raises w p = None)"
    using that descargar_y_consolidar_unfiltered [of selected_modules download_option w cfg cb overwrite s]
    by blast
  have 4: "\<exists>r. fst (descargar_y_consolidar cfg cb w download_option overwrite selected_modules s) = Inr r"
    if "selected_modules = Some d \<and> d \<noteq> []
        \<and> (\<forall>x\<in>set d. snd x \<longrightarrow> fst x = ''CCM'' \<or> fst x = ''PRR'')
        \<and> (\<forall>p. makedirs_raises w p = None)"
    using that descargar_y_consolidar_selected [of selected_modules d w cfg cb download_option overwrite s]
    by (cases "\<exists>x\<in>set d. snd x") auto
  show ?thesis using 1 2 3 4 by blast
qed

text \<open>No filter: \<^verbatim>\<open>KeyError\<close>. CCM selected: the batch returns.\<close>

theorem unfiltered_batch_raises_KeyError_witness:
  "fst (descargar_y_consolidar ex_cfg no_callbacks (ex_world (GetResponse (ex_response 401 0 [])))
          ''all'' True None (ex_state Map.empty)) = Inl (KeyError_tipo 317)
   \<and> (\<exists>r. fst (descargar_y_consolidar ex_cfg no_callbacks (ex_world (GetResponse (ex_response 401 0 [])))
          ''all'' True (Some [(''CCM'', True), (''PRR'', False)]) (ex_state Map.empty)) = Inr r)"
proof -
  let ?w = "ex_world (GetResponse (ex_response 401 0 []))"
  have h1: "\<not> truthy None" by (simp add: truthy_def)
  have h2: "''all'' \<noteq> ''consolidate''" by simp
  have h3: "\<forall>p. makedirs_raises ?w p = None" by (simp add: ex_world_def)
  have h4: "\<forall>x\<in>set [(''CCM'', True), (''PRR'', False)]. snd x \<longrightarrow> fst x = ''CCM'' \<or> fst x = ''PRR''"
    by simp
  have a: "fst (descargar_y_consolidar ex_cfg no_callbacks ?w ''all'' True None (ex_state Map.empty))
             = Inl (KeyError_tipo 317)"
    using unfiltered_batch_raises_KeyError [of None "''all''" ?w ex_cfg no_callbacks True
        "ex_state Map.empty" "[]"] h1 h2 h3 by blast
  have b: "\<exists>r. fst (descargar_y_consolidar ex_cfg no_callbacks ?w ''all'' True
             (Some [(''CCM'', True), (''PRR'', False)]) (ex_state Map.empty)) = Inr r"
    using unfiltered_batch_raises_KeyError [of "Some [(''CCM'', True), (''PRR'', False)]" "''all''" ?w
        ex_cfg no_callbacks True "ex_state Map.empty" "[(''CCM'', True), (''PRR'', False)]"] h3 h4
    by blast
  show ?thesis using a b by blast
qed





section \<open>Progress reports\<close>

text \<open>
  C4, as the code has it. In a batch over exactly one selected module (CCM or PRR) the
  progress values reported are non-decreasing and lie in (0, 100]: those of the
  download phase, \<open>j / n * 80\<close> for the j-th of the n tasks in submission order, are
  at most 80, and those of the consolidation that follows are above 80. In the
  consolidate-only mode the download phase reports nothing and the consolidation runs
  over the whole scale.
\<close>

theorem progress_monotone_single_module:
  assumes "selected_modules = Some d"
    and "(name, True) \<in> set d"
    and "\<forall>x\<in>set d. snd x \<longrightarrow> fst x = name"
    and "name = ''CCM'' \<or> name = ''PRR''"
    and "\<forall>p. makedirs_raises w p = None"
  shows "\<exists>D C.
      progress_values (trace (snd (descargar_y_consolidar cfg cb w download_option overwrite selected_modules s)))
        = progress_values (trace s) @ D @ C
      \<and> sorted (D @ C)
      \<and> (\<forall>p\<in>set (D @ C). 0 < p \<and> p \<le> 100)
      \<and> (if download_option = ''consolidate'' then D = []
          else (\<exists>n. D = (if progress_callback cb then download_progress n else []))
               \<and> (\<forall>p\<in>set D. p \<le> 80) \<and> (\<forall>p\<in>set C. 80 < p))"
proof -
  let ?k = "if name = ''CCM'' then 58 else 57 :: nat"
  from selected_ids_single [OF assms(2,3,4)] obtain ids where
    ids: "selected_ids d = Inr ids" "ids \<noteq> []" "set ids = {?k}" by blast
  have k: "?k = 58 \<or> ?k = 57" by simp
  note one = filter_single_folder [OF ids(3) k]
  from descargar_y_consolidar_progress [OF assms(1) ids(1,2) assms(5),
      of cfg cb download_option overwrite s]
  obtain ns Cs where h:
    "progress_values (trace (snd (descargar_y_consolidar cfg cb w download_option overwrite selected_modules s)))
        = progress_values (trace s) @ concat (map (cb_progress cb) ns) @ concat Cs"
    "length Cs = length (filter (\<lambda>(k, v). k \<in> set ids) [(58::nat, carpeta w ''CCM''), (57, carpeta w ''PRR'')])"
    "\<forall>C\<in>set Cs. sorted C \<and> (\<forall>p\<in>set C. 0 < p \<and> p \<le> 100)"
    "if download_option = ''consolidate'' then ns = []
          else length ns = length (filter (\<lambda>(k, v). k \<in> set ids) generar_urls_por_partes)
               \<and> (\<forall>C\<in>set Cs. \<forall>p\<in>set C. 80 < p)
               \<and> (download_option \<noteq> ''missing''
                    \<longrightarrow> ns = map (\<lambda>t. length (snd t))
                               (filter (\<lambda>(k, v). k \<in> set ids) generar_urls_por_partes))"
    by blast
  from h(2) one(1) obtain C where C: "Cs = [C]" using singleton_list [of Cs] by auto
  have sC: "sorted C" and rC: "\<forall>p\<in>set C. 0 < p \<and> p \<le> 100" using h(3) C by simp_all
  show ?thesis
  proof (cases "download_option = ''consolidate''")
    case True
    then have "ns = []" using h(4) by simp
    then have "progress_values (trace (snd (descargar_y_consolidar cfg cb w download_option overwrite selected_modules s)))
        = progress_values (trace s) @ [] @ C" using h(1) C by simp
    then show ?thesis using True sC rC by (intro exI [of _ "[]"] exI [of _ C]) simp
  next
    case False
    then have l: "length ns = 1" and hi: "\<forall>p\<in>set C. 80 < p" using h(4) one(2) C by simp_all
    from singleton_list [OF l] obtain n where n: "ns = [n]" by blast
    let ?D = "cb_progress cb n"
    have e: "progress_values (trace (snd (descargar_y_consolidar cfg cb w download_option overwrite selected_modules s)))
        = progress_values (trace s) @ ?D @ C" using h(1) C n by simp
    have sD: "sorted ?D" unfolding cb_progress_def by (simp add: download_progress_sorted)
    have rD: "\<forall>p\<in>set ?D. 0 < p \<and> p \<le> 80"
    proof
      fix p assume "p \<in> set ?D"
      then have "p \<in> set (download_progress n)"
        unfolding cb_progress_def by (simp split: if_splits)
      then show "0 < p \<and> p \<le> 80" by (rule download_progress_range)
    qed
    have s: "sorted (?D @ C)" using sD sC rD hi by (fastforce simp: sorted_append)
    have r: "\<forall>p\<in>set (?D @ C). 0 < p \<and> p \<le> 100" using rD rC by fastforce
    have f: "\<exists>m. ?D = (if progress_callback cb then download_progress m else [])"
      unfolding cb_progress_def by blast
    have g: "\<forall>p\<in>set ?D. p \<le> 80" using rD by blast
    show ?thesis
      apply (rule exI [of _ ?D], rule exI [of _ C])
      using e s r f g hi False by simp
  qed
qed

text \<open>A batch over CCM alone, every download succeeding.\<close>

theorem progress_monotone_single_module_witness:
  "sorted (progress_values (trace (snd (descargar_y_consolidar ex_cfg ex_progress
      (ex_world (GetResponse (ex_response 200 3 [''LM1''])))
      ''all'' True (Some [(''CCM'', True), (''PRR'', False)]) (ex_state Map.empty)))))"
proof -
  let ?w = "ex_world (GetResponse (ex_response 200 3 [''LM1'']))"
  let ?d = "[(''CCM'', True), (''PRR'', False)]"
  have h2: "(''CCM'', True) \<in> set ?d" by simp
  have h3: "\<forall>x\<in>set ?d. snd x \<longrightarrow> fst x = ''CCM''" by simp
  have h5: "\<forall>p. makedirs_raises ?w p = None" by (simp add: ex_world_def)
  have t: "progress_values (trace (ex_state Map.empty)) = []" by (simp add: ex_state_def)
  from progress_monotone_single_module [OF refl h2 h3 _ h5, of ex_cfg ex_progress "''all''" True
      "ex_state Map.empty"]
  obtain D C where
    "progress_values (trace (snd (descargar_y_consolidar ex_cfg ex_progress ?w ''all'' True (Some ?d)
        (ex_state Map.empty)))) = progress_values (trace (ex_state Map.empty)) @ D @ C"
    "sorted (D @ C)"
    by auto
  then show ?thesis using t by simp
qed

text \<open>
  The claim as stated fails with two modules: each module's download phase counts from
  \<open>1 / 56 * 80\<close> to 80 on its own, so the report 80 that ends the downloads of CCM is
  followed by the report 10/7 of the first download of PRR.
\<close>

theorem progress_monotone_counterexample:
  "\<not> sorted (progress_values (trace (snd (descargar_y_consolidar ex_cfg ex_progress
      (ex_world (GetResponse (ex_response 200 3 [''LM1''])))
      ''all'' True (Some [(''CCM'', True), (''PRR'', True)]) (ex_state Map.empty)))))"
proof
  let ?w = "ex_world (GetResponse (ex_response 200 3 [''LM1'']))"
  let ?d = "[(''CCM'', True), (''PRR'', True)]"
  let ?pv = "progress_values (trace (snd (descargar_y_consolidar ex_cfg ex_progress ?w ''all'' True
      (Some ?d) (ex_state Map.empty))))"
  assume srt: "sorted ?pv"
  have i: "selected_ids ?d = Inr [58, 57]" by (simp add: module_name_to_id_def)
  have h5: "\<forall>p. makedirs_raises ?w p = None" by (simp add: ex_world_def)
  have u: "filter (\<lambda>(k, v). k \<in> set [58, 57]) generar_urls_por_partes
             = [(58, urls_de_tipo 58), (57, urls_de_tipo 57)]"
    by (simp add: generar_urls_eq)
  from descargar_y_consolidar_progress [OF refl i _ h5, of ex_cfg ex_progress "''all''" True
      "ex_state Map.empty"]
  obtain ns Cs where h:
    "?pv = progress_values (trace (ex_state Map.empty)) @ concat (map (cb_progress ex_progress) ns) @ concat Cs"
    "ns = map (\<lambda>t. length (snd t)) (filter (\<lambda>(k, v). k \<in> set [58, 57]) generar_urls_por_partes)"
    by auto
  have ns: "ns = [56, 56]" unfolding h(2) u by (simp add: length_urls_de_tipo)
  have e: "?pv = download_progress 56 @ (download_progress 56 @ concat Cs)"
    unfolding h(1) ns by (simp add: cb_progress_def ex_progress_def ex_state_def)
  have a: "(80::rat) \<in> set (download_progress 56)"
  proof -
    have "(80::rat) = (\<lambda>j. of_nat j / of_nat 56 * 80) (56::nat)" by simp
    moreover have "(56::nat) \<in> set [1..<Suc 56]" by simp
    ultimately have "(80::rat) \<in> (\<lambda>j. of_nat j / of_nat 56 * 80) ` set [1..<Suc 56]"
      by (rule image_eqI)
    then show ?thesis unfolding download_progress_def by (simp only: set_map)
  qed
  have b: "(10 / 7 :: rat) \<in> set (download_progress 56 @ concat Cs)"
  proof -
    have "(10 / 7 :: rat) = (\<lambda>j. of_nat j / of_nat 56 * 80) (1::nat)" by simp
    moreover have "(1::nat) \<in> set [1..<Suc 56]" by simp
    ultimately have "(10 / 7 :: rat) \<in> (\<lambda>j. of_nat j / of_nat 56 * 80) ` set [1..<Suc 56]"
      by (rule image_eqI)
    then have "(10 / 7 :: rat) \<in> set (download_progress 56)"
      unfolding download_progress_def by (simp only: set_map)
    then show ?thesis by simp
  qed
  from srt have "\<forall>x\<in>set (download_progress 56). \<forall>y\<in>set (download_progress 56 @ concat Cs). x \<le> y"
    unfolding e sorted_append by blast
  then have "(80::rat) \<le> 10 / 7" using a b by blast
  then show False by simp
qed


end
